theory Spec2Isabelle
  imports Main
begin

section \<open>Data model\<close>

text \<open>
  The role definition as the resolver reads it (\<^verbatim>\<open>IRoleRead\<close>): the fields
  \<^verbatim>\<open>key\<close>, \<^verbatim>\<open>permissions?\<close> and \<^verbatim>\<open>extends?\<close>. The remaining fields
  (\<^verbatim>\<open>id\<close>, \<^verbatim>\<open>name\<close>, \<^verbatim>\<open>description\<close>, \<^verbatim>\<open>attributes\<close>, the timestamps)
  are never read by \<^verbatim>\<open>permissio.ts\<close> and are left out. An optional field is an
  \<open>option\<close>: \<open>None\<close> is \<^verbatim>\<open>undefined\<close>.
\<close>

record role =
  role_key :: string
  role_permissions :: "string list option"
  role_extends :: "string list option"

text \<open>
  \<^verbatim>\<open>Map<string, IRoleRead>\<close>: an association list in insertion order with unique
  keys; \<^verbatim>\<open>rolesMap.get(k)\<close> is \<open>map_of rolesMap k\<close>.
\<close>

type_synonym roles_map = "(string \<times> role) list"

text \<open>\<^verbatim>\<open>xs || []\<close> for an optional array.\<close>

definition orEmpty :: "'a list option \<Rightarrow> 'a list" where
  "orEmpty xs = (case xs of None \<Rightarrow> [] | Some ys \<Rightarrow> ys)"

text \<open>
  \<^verbatim>\<open>[...new Set(xs)]\<close>: the elements of \<open>xs\<close> are added to an empty set one by
  one, and a JavaScript \<^verbatim>\<open>Set\<close> iterates in insertion order, so the first
  occurrence of every element is kept, in order.
\<close>

definition setAdd :: "'a list \<Rightarrow> 'a \<Rightarrow> 'a list" where
  "setAdd acc x = (if x \<in> set acc then acc else acc @ [x])"

definition newSet :: "'a list \<Rightarrow> 'a list" where
  "newSet xs = fold (\<lambda>x acc. setAdd acc x) xs []"

section \<open>Role graph resolver\<close>

text \<open>
  The state that one top-level call of \<^verbatim>\<open>getRolePermissions\<close> threads through its
  recursion: the \<^verbatim>\<open>visited\<close> set, which the source mutates in place and shares
  between all recursive calls, and a record of the keys handed to
  \<^verbatim>\<open>rolesMap.get\<close> (line 299), in order. The source keeps no such record; it is
  here so that "how often is a role expanded" can be stated. It is written and never read.
\<close>

record traversal =
  visited :: "string set"
  lookups :: "string list"

text \<open>\<^verbatim>\<open>new Set()\<close> as passed by the callers of \<^verbatim>\<open>getRolePermissions\<close>.\<close>

definition fresh :: traversal where
  "fresh = \<lparr>visited = {}, lookups = []\<rparr>"

text \<open>\<^verbatim>\<open>visited.add(roleKey)\<close>, followed by the record of the lookup that comes next.\<close>

definition mark :: "string \<Rightarrow> traversal \<Rightarrow> traversal" where
  "mark k st = st\<lparr>visited := insert k (visited st), lookups := lookups st @ [k]\<rparr>"

text \<open>
  \<^verbatim>\<open>getRolePermissions(roleKey, rolesMap, visited)\<close>, lines 288-319. The
  \<^verbatim>\<open>for (const parentRoleKey of role.extends)\<close> loop is \<open>inheritFrom\<close>, with the
  \<^verbatim>\<open>permissions\<close> array it pushes to as its last argument. Both return the
  traversal state next to their value.
\<close>

function getRolePermissions :: "string \<Rightarrow> roles_map \<Rightarrow> traversal \<Rightarrow> string list \<times> traversal"
  and inheritFrom :: "string list \<Rightarrow> roles_map \<Rightarrow> traversal \<Rightarrow> string list \<Rightarrow> string list \<times> traversal"
where
  "getRolePermissions roleKey rolesMap st =
     (if roleKey \<in> visited st then ([], st)
      else
        let st1 = mark roleKey st in
        case map_of rolesMap roleKey of
          None \<Rightarrow> ([], st1)
        | Some role \<Rightarrow>
            let permissions = orEmpty (role_permissions role) in
            (case role_extends role of
               Some (p # ps) \<Rightarrow>
                 (case inheritFrom (p # ps) rolesMap st1 permissions of
                    (permissions', st2) \<Rightarrow> (newSet permissions', st2))
             | _ \<Rightarrow> (newSet permissions, st1)))"
| "inheritFrom [] rolesMap st permissions = (permissions, st)"
| "inheritFrom (parentRoleKey # rest) rolesMap st permissions =
     (case getRolePermissions parentRoleKey rolesMap st of
        (parentPermissions, st1) \<Rightarrow> inheritFrom rest rolesMap st1 (permissions @ parentPermissions))"
  by pat_completeness auto

text \<open>
  The recursion is nested: the loop continues from the state the recursive call returns.
  Termination needs that a call never shrinks \<open>visited\<close>, proved first on the domain
  of the function.
\<close>

lemma visited_grows_partial:
  "getRolePermissions_inheritFrom_dom (Inl (k, m, st)) \<Longrightarrow>
     visited st \<subseteq> visited (snd (getRolePermissions k m st))"
  "getRolePermissions_inheritFrom_dom (Inr (ps, m, st, acc)) \<Longrightarrow>
     visited st \<subseteq> visited (snd (inheritFrom ps m st acc))"
proof (induction k m st and ps m st acc rule: getRolePermissions_inheritFrom.pinduct)
  case (1 roleKey rolesMap st)
  show ?case
  proof (cases "roleKey \<in> visited st")
    case True
    then show ?thesis using 1(1) by (simp add: getRolePermissions.psimps)
  next
    case False
    note nv = this
    show ?thesis
    proof (cases "map_of rolesMap roleKey")
      case None
      then show ?thesis using 1(1) nv by (auto simp add: getRolePermissions.psimps mark_def)
    next
      case (Some role)
      note role = this
      show ?thesis
      proof (cases "role_extends role")
        case None
        then show ?thesis using 1(1) nv role by (auto simp add: getRolePermissions.psimps mark_def)
      next
        case (Some ext)
        note ext = this
        show ?thesis
        proof (cases ext)
          case Nil
          then show ?thesis using 1(1) nv ext role
            by (auto simp add: getRolePermissions.psimps mark_def)
        next
          case (Cons p ps)
          have "visited (mark roleKey st)
                \<subseteq> visited (snd (inheritFrom (p # ps) rolesMap (mark roleKey st)
                     (orEmpty (role_permissions role))))"
            using 1(2)[OF nv refl role refl ext Cons] .
          moreover have "visited st \<subseteq> visited (mark roleKey st)"
            by (auto simp: mark_def)
          ultimately show ?thesis using 1(1) nv ext Cons role
            by (auto simp add: getRolePermissions.psimps split: prod.splits)
        qed
      qed
    qed
  qed
next
  case (2 rolesMap st permissions)
  then show ?case by (simp add: inheritFrom.psimps)
next
  case (3 parentRoleKey rest rolesMap st permissions)
  obtain pp st1 where g: "getRolePermissions parentRoleKey rolesMap st = (pp, st1)"
    by (cases "getRolePermissions parentRoleKey rolesMap st")
  have a: "visited st \<subseteq> visited st1" using 3(2) g by simp
  have b: "visited st1 \<subseteq> visited (snd (inheritFrom rest rolesMap st1 (permissions @ pp)))"
    using 3(3)[OF g[symmetric]] .
  show ?case using 3(1) g a b by (simp add: inheritFrom.psimps)
qed

text \<open>
  The measure: the number of keys of the table not yet visited, then the length of the
  rest of the \<^verbatim>\<open>extends\<close> array. A call recurses only on a key of the table that it
  has just marked visited.
\<close>

termination getRolePermissions
proof (relation "inv_image (less_than <*lex*> less_than)
     (\<lambda>x. case x of Inl (k, m, st) \<Rightarrow> (card (fst ` set m - visited st), 0::nat)
                   | Inr (ps, m, st, acc) \<Rightarrow> (card (fst ` set m - visited st), Suc (length ps)))",
     goal_cases)
  case 1
  show ?case by (intro wf_inv_image wf_lex_prod wf_less_than)
next
  case (2 roleKey rolesMap st x x2 xa x2a x21 x22)
  have "roleKey \<in> fst ` set rolesMap"
    using 2(3) by (metis map_of_SomeD fst_conv image_eqI)
  then have "card (fst ` set rolesMap - insert roleKey (visited st))
             < card (fst ` set rolesMap - visited st)"
    using 2(1) by (intro psubset_card_mono) auto
  then show ?case using 2 by (simp add: mark_def)
next
  case (3 parentRoleKey rest rolesMap st permissions)
  show ?case by simp
next
  case (4 parentRoleKey rest rolesMap st permissions x y)
  have "visited st \<subseteq> visited y"
    using visited_grows_partial(1)[OF 4(2)] 4(1) by (metis snd_conv)
  then have "card (fst ` set rolesMap - visited y) \<le> card (fst ` set rolesMap - visited st)"
    by (intro card_mono) auto
  then show ?case by auto
qed

declare getRolePermissions.simps [simp del]

declare inheritFrom.simps [simp del]

subsection \<open>The effect of a run on the traversal state\<close>

text \<open>
  How the state after a run relates to the state before it: \<open>visited\<close> has only
  grown, and the keys looked up in between are exactly the keys added, each once.
\<close>

definition extends_run :: "traversal \<Rightarrow> traversal \<Rightarrow> bool" where
  "extends_run st st' \<longleftrightarrow>
     visited st \<subseteq> visited st' \<and>
     (\<exists>new. lookups st' = lookups st @ new \<and> distinct new \<and>
            set new = visited st' - visited st)"

section \<open>Strings and arrays\<close>

text \<open>\<^verbatim>\<open>s.split(sep)\<close> for a one-character separator: never empty; \<^verbatim>\<open>"".split(":")\<close> is \<^verbatim>\<open>[""]\<close>.\<close>

fun strSplit :: "char \<Rightarrow> string \<Rightarrow> string list" where
  "strSplit sep [] = [[]]"
| "strSplit sep (ch # rest) =
     (if ch = sep then [] # strSplit sep rest
      else (case strSplit sep rest of
              [] \<Rightarrow> [[ch]]
            | part # parts \<Rightarrow> (ch # part) # parts))"

text \<open>\<^verbatim>\<open>xs[i]\<close>: \<^verbatim>\<open>undefined\<close> out of range.\<close>

fun arrayAt :: "'a list \<Rightarrow> nat \<Rightarrow> 'a option" where
  "arrayAt [] i = None"
| "arrayAt (x # xs) 0 = Some x"
| "arrayAt (x # xs) (Suc i) = arrayAt xs i"

text \<open>\<^verbatim>\<open>xs.includes(x)\<close>: a scan with strict equality.\<close>

fun arrayIncludes :: "'a list \<Rightarrow> 'a \<Rightarrow> bool" where
  "arrayIncludes [] x = False"
| "arrayIncludes (y # ys) x = (if y = x then True else arrayIncludes ys x)"

text \<open>\<^verbatim>\<open>xs.join(sep)\<close>.\<close>

fun arrayJoin :: "string \<Rightarrow> string list \<Rightarrow> string" where
  "arrayJoin sep [] = []"
| "arrayJoin sep [x] = x"
| "arrayJoin sep (x # y # ys) = x @ sep @ arrayJoin sep (y # ys)"

section \<open>Check requests and decisions\<close>

text \<open>
  \<^verbatim>\<open>ICheckUser\<close>, \<^verbatim>\<open>ICheckResource\<close> and \<^verbatim>\<open>ICheckRequest\<close>. The free-form
  \<^verbatim>\<open>attributes\<close> and \<^verbatim>\<open>context\<close> maps are never read by the engine and are left
  out. A \<^verbatim>\<open>string | object\<close> argument is a datatype with one constructor per side.
\<close>

record check_user =
  user_key :: string

datatype user_arg = UserString string | UserObject check_user

record check_resource =
  res_type :: string
  res_key :: "string option"
  res_tenant :: "string option"

datatype resource_arg = ResourceString string | ResourceObject check_resource

record check_request =
  req_user :: user_arg
  req_action :: string
  req_resource :: resource_arg
  req_tenant :: "string option"

text \<open>\<^verbatim>\<open>ICheckResponse\<close>; every field but \<^verbatim>\<open>allowed\<close> is optional in the source.\<close>

record debug_info =
  matchedRoles :: "string list option"
  matchedPermissions :: "string list option"
  evaluationTime :: "int option"

record check_response =
  allowed :: bool
  reason :: "string option"
  debug :: "debug_info option"

text \<open>Lines 631-660.\<close>

fun getUserKey :: "user_arg \<Rightarrow> string" where
  "getUserKey (UserString user) = user"
| "getUserKey (UserObject user) = user_key user"

fun getResourceKey :: "resource_arg \<Rightarrow> string" where
  "getResourceKey (ResourceString resource) = resource"
| "getResourceKey (ResourceObject resource) =
     (case res_key resource of
        None \<Rightarrow> res_type resource
      | Some k \<Rightarrow> if k = [] then res_type resource else res_type resource @ '':'' @ k)"

fun extractResourceType :: "resource_arg \<Rightarrow> string" where
  "extractResourceType (ResourceString resource) =
     (if CHR '':'' \<in> set resource
      then (case arrayAt (strSplit CHR '':'' resource) 0 of Some t \<Rightarrow> t | None \<Rightarrow> [])
      else resource)"
| "extractResourceType (ResourceObject resource) = res_type resource"

fun extractResourceInstanceKey :: "resource_arg \<Rightarrow> string option" where
  "extractResourceInstanceKey (ResourceString resource) =
     (let parts = strSplit CHR '':'' resource
      in if length parts > 1 then arrayAt parts 1 else None)"
| "extractResourceInstanceKey (ResourceObject resource) = res_key resource"

section \<open>Configuration and scope\<close>

text \<open>
  \<^verbatim>\<open>MutableConfig\<close>. JavaScript reads an optional string as a condition: it is
  truthy when it is present and not empty.
\<close>

record config =
  cfg_token :: string
  cfg_apiUrl :: string
  cfg_projectId :: "string option"
  cfg_environmentId :: "string option"
  cfg_debug :: bool
  cfg_timeout :: nat
  cfg_customHeaders :: "(string \<times> string) list"
  cfg_retryAttempts :: nat
  cfg_throwOnError :: bool

definition truthy :: "string option \<Rightarrow> bool" where
  "truthy s = (case s of None \<Rightarrow> False | Some v \<Rightarrow> v \<noteq> [])"

text \<open>\<^verbatim>\<open>updateScope\<close>, lines 767-774: two assignments in sequence.\<close>

definition updateScope :: "string option \<Rightarrow> string option \<Rightarrow> config \<Rightarrow> config" where
  "updateScope projectId environmentId cfg =
     (let cfg1 = (if truthy projectId \<and> \<not> truthy (cfg_projectId cfg)
                  then cfg\<lparr>cfg_projectId := projectId\<rparr> else cfg)
      in if truthy environmentId \<and> \<not> truthy (cfg_environmentId cfg1)
         then cfg1\<lparr>cfg_environmentId := environmentId\<rparr> else cfg1)"

text \<open>\<^verbatim>\<open>hasScope\<close>, lines 779-781: \<^verbatim>\<open>!!(this.projectId && this.environmentId)\<close>.\<close>

definition hasScope :: "config \<Rightarrow> bool" where
  "hasScope cfg = (truthy (cfg_projectId cfg) \<and> truthy (cfg_environmentId cfg))"

section \<open>Errors and external collaborators\<close>

text \<open>
  A thrown value. \<open>Thrown s\<close> is a value raised by a collaborator (an HTTP failure),
  known by the text \<open>s\<close> that a template literal renders it as; \<open>NewError m\<close> is
  \<^verbatim>\<open>new Error(m)\<close>, which renders as \<^verbatim>\<open>Error: m\<close>.
\<close>

datatype js_error = Thrown string | NewError string

fun errorToString :: "js_error \<Rightarrow> string" where
  "errorToString (Thrown s) = s"
| "errorToString (NewError m) = (if m = [] then ''Error'' else ''Error: '' @ m)"

text \<open>\<^verbatim>\<open>IApiKeyScope\<close> and the part of \<^verbatim>\<open>IRoleAssignmentRead\<close> that is a role assignment.\<close>

record api_key_scope =
  organization_id :: string
  project_id :: "string option"
  environment_id :: "string option"

record role_assignment =
  ra_user :: string
  ra_role :: string
  ra_tenant :: "string option"
  ra_resource :: "string option"
  ra_resourceInstance :: "string option"

text \<open>
  The three reads the engine makes, as the answers of the remote service: a thrown
  value (\<open>Inl\<close>) or the response. \<open>scopeResponse\<close> is the \<^verbatim>\<open>data\<close> of
  \<^verbatim>\<open>axios.get(apiUrl + "/v1/api-key/scope")\<close>; \<open>roleAssignmentsList user tenant\<close> and
  \<open>rolesList perPage\<close> are the \<^verbatim>\<open>data\<close> field (which may be missing) of what
  \<^verbatim>\<open>api.roleAssignments.list\<close> and \<^verbatim>\<open>api.roles.list\<close> resolve to. The HTTP
  transport behind them (\<^verbatim>\<open>BaseApiClient\<close>, retries) is not modelled.
\<close>

record world =
  scopeResponse :: "js_error + api_key_scope"
  roleAssignmentsList :: "string \<Rightarrow> string option \<Rightarrow> js_error + role_assignment list option"
  rolesList :: "nat \<Rightarrow> js_error + role list option"

text \<open>The calls made to the collaborators, in order; a record kept next to the result.\<close>

datatype api_call =
  ScopeFetch
| ListRoleAssignments string "string option"
| ListRoles nat

section \<open>Scope resolution, one caller at a time\<close>

text \<open>
  The fields of the \<^verbatim>\<open>Permissio\<close> instance that the engine mutates. The type
  parameter is what stands for a promise in \<open>scopeInitPromise\<close>.
\<close>

record 'p client =
  config :: config
  scopeInitialized :: bool
  scopeInitPromise :: "'p option"

text \<open>
  The part of \<^verbatim>\<open>fetchAndSetScope\<close> that runs once \<^verbatim>\<open>axios.get\<close> has settled
  (lines 559-581), given how it settled.
\<close>

definition scopeFetched :: "js_error + api_key_scope \<Rightarrow> 'p client \<Rightarrow> (js_error + unit) \<times> 'p client" where
  "scopeFetched response cl =
     (case response of
        Inr scope \<Rightarrow>
          (Inr (),
           cl\<lparr>config := updateScope (project_id scope) (environment_id scope) (config cl),
              scopeInitialized := True\<rparr>)
      | Inl error \<Rightarrow>
          if \<not> hasScope (config cl)
          then (Inl (NewError (''Permissio.io SDK: Failed to fetch API key scope. '' @
                  ''Either provide projectId and environmentId in config, '' @
                  ''or ensure the API key has valid scope. '' @
                  ''Error: '' @ errorToString error)), cl)
          else (Inr (), cl\<lparr>scopeInitialized := True\<rparr>))"

text \<open>
  A call that runs to its end before any other starts. A promise is then known by how it
  settles. \<^verbatim>\<open>fetchAndSetScope\<close> (lines 546-582) and \<^verbatim>\<open>ensureScope\<close> (lines
  524-541); in the last branch the promise is stored, awaited, and cleared by
  \<^verbatim>\<open>finally\<close>.
\<close>

type_synonym seq_client = "(js_error + unit) client"

definition fetchAndSetScope :: "world \<Rightarrow> seq_client \<Rightarrow> (js_error + unit) \<times> seq_client \<times> api_call list" where
  "fetchAndSetScope w cl =
     (case scopeFetched (scopeResponse w) cl of (r, cl1) \<Rightarrow> (r, cl1, [ScopeFetch]))"

definition ensureScope :: "world \<Rightarrow> seq_client \<Rightarrow> (js_error + unit) \<times> seq_client \<times> api_call list" where
  "ensureScope w cl =
     (if scopeInitialized cl \<or> hasScope (config cl) then (Inr (), cl, [])
      else case scopeInitPromise cl of
        Some p \<Rightarrow> (p, cl, [])
      | None \<Rightarrow>
          (case fetchAndSetScope w cl of
             (r, cl1, calls) \<Rightarrow>
               let cl2 = cl1\<lparr>scopeInitPromise := Some r\<rparr>
               in (r, cl2\<lparr>scopeInitPromise := None\<rparr>, calls)))"

section \<open>Decision engine\<close>

text \<open>The condition of lines 244-248 on one role's closure.\<close>

definition grants :: "string list \<Rightarrow> string \<Rightarrow> string \<Rightarrow> bool" where
  "grants permissions resourceType requiredPermission =
     (arrayIncludes permissions requiredPermission \<or>
      arrayIncludes permissions (resourceType @ '':*'') \<or>
      arrayIncludes permissions ''*:*'')"

text \<open>
  The loop of lines 232-252 over the assigned role keys, with the two arrays it pushes
  to; every role key gets a closure from a new \<^verbatim>\<open>visited\<close> set.
\<close>

fun matchRoles :: "string list \<Rightarrow> roles_map \<Rightarrow> string \<Rightarrow> string \<Rightarrow>
    string list \<times> string list \<Rightarrow> string list \<times> string list" where
  "matchRoles [] rolesMap resourceType requiredPermission (matched, perms) = (matched, perms)"
| "matchRoles (roleKey # rest) rolesMap resourceType requiredPermission (matched, perms) =
     (let permissions = fst (getRolePermissions roleKey rolesMap fresh)
      in if grants permissions resourceType requiredPermission
         then matchRoles rest rolesMap resourceType requiredPermission
                (matched @ [roleKey], perms @ [requiredPermission])
         else matchRoles rest rolesMap resourceType requiredPermission (matched, perms))"

text \<open>
  Lines 210-213: \<^verbatim>\<open>rolesMap.set(role.key, role)\<close> for every role of the response. A
  \<^verbatim>\<open>Map\<close> keeps a key at its first position and replaces its value.
\<close>

fun mapSet :: "string \<Rightarrow> role \<Rightarrow> roles_map \<Rightarrow> roles_map" where
  "mapSet k v [] = [(k, v)]"
| "mapSet k v ((k', v') # rest) = (if k' = k then (k, v) # rest else (k', v') # mapSet k v rest)"

definition buildRolesMap :: "role list \<Rightarrow> roles_map" where
  "buildRolesMap roles = fold (\<lambda>role m. mapSet (role_key role) role m) roles []"

text \<open>
  The body of the \<^verbatim>\<open>try\<close> block of \<^verbatim>\<open>checkWithDetails\<close>, lines 163-273: the
  decision or the thrown value, and the calls made. The \<^verbatim>\<open>console.log\<close> lines
  under \<^verbatim>\<open>config.debug\<close> change nothing and are left out.
\<close>

definition checkWithDetails_try :: "world \<Rightarrow> check_request \<Rightarrow> (js_error + check_response) \<times> api_call list" where
  "checkWithDetails_try w request =
     (let userKey = getUserKey (req_user request);
          resourceType = extractResourceType (req_resource request);
          resourceInstanceKey = extractResourceInstanceKey (req_resource request);
          requiredPermission = resourceType @ '':'' @ req_action request;
          calls1 = [ListRoleAssignments userKey (req_tenant request)]
      in case roleAssignmentsList w userKey (req_tenant request) of
           Inl error \<Rightarrow> (Inl error, calls1)
         | Inr assignments \<Rightarrow>
             if assignments = None \<or> length (orEmpty assignments) = 0
             then (Inr \<lparr>allowed = False,
                        reason = Some (''User '' @ userKey @ '' has no role assignments''),
                        debug = None\<rparr>, calls1)
             else
               let roleKeys = newSet (map ra_role (orEmpty assignments));
                   calls2 = calls1 @ [ListRoles 100]
               in case rolesList w 100 of
                    Inl error \<Rightarrow> (Inl error, calls2)
                  | Inr roles \<Rightarrow>
                      let rolesMap = buildRolesMap (orEmpty roles);
                          (matched, perms) =
                             matchRoles roleKeys rolesMap resourceType requiredPermission ([], []);
                          isAllowed = (length matched > 0)
                      in (Inr \<lparr>allowed = isAllowed,
                                 reason = Some (if isAllowed
                                   then ''Granted by role(s): '' @ arrayJoin '', '' matched
                                   else ''No role grants permission '' @ requiredPermission),
                                 debug = Some \<lparr>matchedRoles = Some matched,
                                                matchedPermissions = Some perms,
                                                evaluationTime = Some 0\<rparr>\<rparr>, calls2))"

text \<open>
  \<^verbatim>\<open>checkWithDetails\<close>, lines 158-283: \<^verbatim>\<open>await this.ensureScope()\<close> stands before
  the \<^verbatim>\<open>try\<close>, so what it throws leaves the function; what the body throws reaches
  the \<^verbatim>\<open>catch\<close>.
\<close>

definition checkWithDetails :: "world \<Rightarrow> seq_client \<Rightarrow> check_request \<Rightarrow>
    (js_error + check_response) \<times> seq_client \<times> api_call list" where
  "checkWithDetails w cl request =
     (case ensureScope w cl of
        (Inl error, cl1, calls0) \<Rightarrow> (Inl error, cl1, calls0)
      | (Inr u, cl1, calls0) \<Rightarrow>
          (case checkWithDetails_try w request of
             (Inr response, calls) \<Rightarrow> (Inr response, cl1, calls0 @ calls)
           | (Inl error, calls) \<Rightarrow>
               if cfg_throwOnError (config cl1) then (Inl error, cl1, calls0 @ calls)
               else (Inr \<lparr>allowed = False,
                          reason = Some (''Error during permission check: '' @ errorToString error),
                          debug = None\<rparr>, cl1, calls0 @ calls)))"

section \<open>Scope resolution with interleaved callers\<close>

text \<open>
  Calls of \<^verbatim>\<open>ensureScope\<close> that overlap. JavaScript runs one piece of code at a
  time and switches only at an \<^verbatim>\<open>await\<close>, so every event below is one
  uninterrupted piece of lines 524-582:
  \<^item> \<open>Call c\<close>: caller \<open>c\<close> enters \<^verbatim>\<open>ensureScope\<close> and runs to its first
    \<^verbatim>\<open>await\<close> or \<^verbatim>\<open>return\<close> (lines 526-537, and \<^verbatim>\<open>fetchAndSetScope\<close> up
    to the \<^verbatim>\<open>await axios.get\<close>, which sends the request);
  \<^item> \<open>Response p r\<close>: the request behind promise \<open>p\<close> settles with \<open>r\<close> and the
    rest of \<^verbatim>\<open>fetchAndSetScope\<close> runs (lines 559-581), which settles \<open>p\<close>;
  \<^item> \<open>Resume c\<close>: caller \<open>c\<close> continues after the promise it waits for has settled;
    the caller that stored the promise runs \<^verbatim>\<open>finally\<close> (line 539).
  Promises are objects shared by reference: they live in a store, and
  \<open>scopeInitPromise\<close> and the waiting callers hold their addresses. An event that
  cannot happen in a state leaves it as it is.
\<close>

datatype promise = Pending | Fulfilled | Rejected js_error

datatype caller = NotCalled | Owner nat | Sharing nat | Settled "js_error + unit"

record sys =
  sdk :: "nat client"
  promises :: "nat \<rightharpoonup> promise"
  allocated :: nat
  scopeFetches :: nat
  callers :: "nat \<Rightarrow> caller"

datatype event = Call nat | Response nat "js_error + api_key_scope" | Resume nat

definition settle :: "js_error + unit \<Rightarrow> promise" where
  "settle outcome = (case outcome of Inl error \<Rightarrow> Rejected error | Inr u \<Rightarrow> Fulfilled)"

fun step :: "event \<Rightarrow> sys \<Rightarrow> sys" where
  "step (Call c) s =
     (if callers s c \<noteq> NotCalled then s
      else if scopeInitialized (sdk s) \<or> hasScope (config (sdk s))
        then s\<lparr>callers := (callers s)(c := Settled (Inr ()))\<rparr>
      else case scopeInitPromise (sdk s) of
        Some p \<Rightarrow> s\<lparr>callers := (callers s)(c := Sharing p)\<rparr>
      | None \<Rightarrow>
          let p = allocated s
          in s\<lparr>sdk := (sdk s)\<lparr>scopeInitPromise := Some p\<rparr>,
               promises := (promises s)(p \<mapsto> Pending),
               allocated := Suc p,
               scopeFetches := Suc (scopeFetches s),
               callers := (callers s)(c := Owner p)\<rparr>)"
| "step (Response p response) s =
     (if promises s p \<noteq> Some Pending then s
      else case scopeFetched response (sdk s) of
        (outcome, cl1) \<Rightarrow> s\<lparr>sdk := cl1, promises := (promises s)(p \<mapsto> settle outcome)\<rparr>)"
| "step (Resume c) s =
     (case callers s c of
        Owner p \<Rightarrow>
          (case promises s p of
             Some Fulfilled \<Rightarrow>
               s\<lparr>sdk := (sdk s)\<lparr>scopeInitPromise := None\<rparr>,
                 callers := (callers s)(c := Settled (Inr ()))\<rparr>
           | Some (Rejected error) \<Rightarrow>
               s\<lparr>sdk := (sdk s)\<lparr>scopeInitPromise := None\<rparr>,
                 callers := (callers s)(c := Settled (Inl error))\<rparr>
           | _ \<Rightarrow> s)
      | Sharing p \<Rightarrow>
          (case promises s p of
             Some Fulfilled \<Rightarrow> s\<lparr>callers := (callers s)(c := Settled (Inr ()))\<rparr>
           | Some (Rejected error) \<Rightarrow> s\<lparr>callers := (callers s)(c := Settled (Inl error))\<rparr>
           | _ \<Rightarrow> s)
      | _ \<Rightarrow> s)"

definition boot :: "config \<Rightarrow> sys" where
  "boot cfg = \<lparr>sdk = \<lparr>config = cfg, scopeInitialized = False, scopeInitPromise = None\<rparr>,
     promises = Map.empty, allocated = 0, scopeFetches = 0, callers = (\<lambda>c. NotCalled)\<rparr>"

fun isCall :: "event \<Rightarrow> bool" where
  "isCall (Call c) = True"
| "isCall e = False"

text \<open>
  The invariant of the interleaved runs: a pending promise is the one stored in
  \<open>scopeInitPromise\<close>, and while it is pending scope is neither initialized nor
  configured; the caller that stored a promise and has not yet run its \<^verbatim>\<open>finally\<close>
  is unique, and the promise it stored is still the stored one.
\<close>

definition single_flight :: "sys \<Rightarrow> bool" where
  "single_flight s \<longleftrightarrow>
     (\<forall>p. promises s p = Some Pending \<longrightarrow>
        scopeInitPromise (sdk s) = Some p \<and> \<not> scopeInitialized (sdk s) \<and>
        \<not> hasScope (config (sdk s))) \<and>
     (\<forall>c p. callers s c = Owner p \<longrightarrow> scopeInitPromise (sdk s) = Some p) \<and>
     (\<forall>c c' p p'. callers s c = Owner p \<and> callers s c' = Owner p' \<longrightarrow> c = c')"

text \<open>
  A client of the interleaved model read as a client of the one-caller model, when no
  promise is stored.
\<close>

definition quiescent :: "'p client \<Rightarrow> seq_client" where
  "quiescent cl = \<lparr>config = config cl, scopeInitialized = scopeInitialized cl, scopeInitPromise = None\<rparr>"

section \<open>Sample data\<close>

text \<open>A chain \<open>admin \<rightarrow> editor \<rightarrow> viewer\<close> and a direct cycle \<open>x \<leftrightarrow> y\<close>.\<close>

definition viewerRole :: role where
  "viewerRole = \<lparr>role_key = ''viewer'', role_permissions = Some [''document:read''],
     role_extends = None\<rparr>"

definition editorRole :: role where
  "editorRole = \<lparr>role_key = ''editor'',
     role_permissions = Some [''document:read'', ''document:write''],
     role_extends = Some [''viewer'']\<rparr>"

definition adminRole :: role where
  "adminRole = \<lparr>role_key = ''admin'', role_permissions = Some [''document:delete''],
     role_extends = Some [''editor'']\<rparr>"

definition chainRoles :: roles_map where
  "chainRoles = [(''viewer'', viewerRole), (''editor'', editorRole), (''admin'', adminRole)]"

definition cycleX :: role where
  "cycleX = \<lparr>role_key = ''x'', role_permissions = Some [''a:read''], role_extends = Some [''y'']\<rparr>"

definition cycleY :: role where
  "cycleY = \<lparr>role_key = ''y'', role_permissions = Some [''b:read''], role_extends = Some [''x'']\<rparr>"

definition cycleRoles :: roles_map where
  "cycleRoles = [(''x'', cycleX), (''y'', cycleY)]"

definition newClient :: "config \<Rightarrow> seq_client" where
  "newClient cfg = \<lparr>config = cfg, scopeInitialized = False, scopeInitPromise = None\<rparr>"

definition unscopedConfig :: config where
  "unscopedConfig = \<lparr>cfg_token = ''permis_key_0'', cfg_apiUrl = ''https://api.permissio.io'',
     cfg_projectId = None, cfg_environmentId = None, cfg_debug = False, cfg_timeout = 30000,
     cfg_customHeaders = [], cfg_retryAttempts = 3, cfg_throwOnError = False\<rparr>"

definition partialConfig :: config where
  "partialConfig = unscopedConfig\<lparr>cfg_projectId := Some ''proj''\<rparr>"

definition scopedConfig :: config where
  "scopedConfig = unscopedConfig\<lparr>cfg_projectId := Some ''proj'', cfg_environmentId := Some ''env''\<rparr>"

definition emptyIdConfig :: config where
  "emptyIdConfig = unscopedConfig\<lparr>cfg_projectId := Some []\<rparr>"

definition adminAssignment :: role_assignment where
  "adminAssignment = \<lparr>ra_user = ''u1'', ra_role = ''admin'', ra_tenant = None,
     ra_resource = None, ra_resourceInstance = None\<rparr>"

definition liveWorld :: world where
  "liveWorld = \<lparr>
     scopeResponse = Inr \<lparr>organization_id = ''org'', project_id = Some ''p1'',
                         environment_id = Some ''e1''\<rparr>,
     roleAssignmentsList = (\<lambda>user tenant. Inr (Some (if user = ''u1'' then [adminAssignment] else []))),
     rolesList = (\<lambda>perPage. Inr (Some [viewerRole, editorRole, adminRole]))\<rparr>"

definition downWorld :: world where
  "downWorld = \<lparr>
     scopeResponse = Inl (Thrown ''AxiosError: Network Error''),
     roleAssignmentsList = (\<lambda>user tenant. Inl (Thrown ''PermissioApiError: Network error - no response received'')),
     rolesList = (\<lambda>perPage. Inl (Thrown ''PermissioApiError: Network error - no response received''))\<rparr>"

definition readRequest :: "string \<Rightarrow> check_request" where
  "readRequest user = \<lparr>req_user = UserString user, req_action = ''read'',
     req_resource = ResourceString ''document'', req_tenant = None\<rparr>"

definition grantedScope :: api_key_scope where
  "grantedScope = \<lparr>organization_id = ''org'', project_id = Some ''p1'', environment_id = Some ''e1''\<rparr>"

section \<open>Lemmas about the role graph resolver\<close>

subsection \<open>The set built by \<^verbatim>\<open>new Set\<close>\<close>

lemma set_fold_setAdd: "set (fold (\<lambda>x acc. setAdd acc x) xs acc) = set acc \<union> set xs"
  by (induction xs arbitrary: acc) (auto simp: setAdd_def)

lemma distinct_fold_setAdd:
  "distinct acc \<Longrightarrow> distinct (fold (\<lambda>x acc. setAdd acc x) xs acc)"
  by (induction xs arbitrary: acc) (auto simp: setAdd_def)

lemma set_newSet: "set (newSet xs) = set xs"
  by (simp add: newSet_def set_fold_setAdd)

lemma distinct_newSet: "distinct (newSet xs)"
  by (simp add: newSet_def distinct_fold_setAdd)

subsection \<open>One step of the resolver, by the branch it takes\<close>

lemma getRolePermissions_visited:
  "k \<in> visited st \<Longrightarrow> getRolePermissions k m st = ([], st)"
  by (subst getRolePermissions.simps) simp

lemma getRolePermissions_missing:
  "k \<notin> visited st \<Longrightarrow> map_of m k = None \<Longrightarrow> getRolePermissions k m st = ([], mark k st)"
  by (subst getRolePermissions.simps) simp

lemma getRolePermissions_leaf:
  "k \<notin> visited st \<Longrightarrow> map_of m k = Some r \<Longrightarrow> orEmpty (role_extends r) = [] \<Longrightarrow>
   getRolePermissions k m st = (newSet (orEmpty (role_permissions r)), mark k st)"
  by (subst getRolePermissions.simps)
     (auto simp add: orEmpty_def Let_def split: option.splits list.splits)

lemma getRolePermissions_inner:
  "k \<notin> visited st \<Longrightarrow> map_of m k = Some r \<Longrightarrow> orEmpty (role_extends r) \<noteq> [] \<Longrightarrow>
   getRolePermissions k m st =
     (newSet (fst (inheritFrom (orEmpty (role_extends r)) m (mark k st)
                     (orEmpty (role_permissions r)))),
      snd (inheritFrom (orEmpty (role_extends r)) m (mark k st) (orEmpty (role_permissions r))))"
  by (subst getRolePermissions.simps)
     (auto simp add: orEmpty_def Let_def case_prod_beta split: option.splits list.splits)

subsection \<open>Every run extends the traversal state\<close>

lemma extends_run_refl: "extends_run st st"
  by (simp add: extends_run_def)

lemma extends_run_trans:
  assumes "extends_run a b" "extends_run b c"
  shows "extends_run a c"
proof -
  obtain n1 where n1: "lookups b = lookups a @ n1" "distinct n1" "set n1 = visited b - visited a"
    and ab: "visited a \<subseteq> visited b"
    using assms(1) by (auto simp: extends_run_def)
  obtain n2 where n2: "lookups c = lookups b @ n2" "distinct n2" "set n2 = visited c - visited b"
    and bc: "visited b \<subseteq> visited c"
    using assms(2) by (auto simp: extends_run_def)
  have "lookups c = lookups a @ (n1 @ n2)" using n1 n2 by simp
  moreover have "distinct (n1 @ n2)" using n1 n2 by auto
  moreover have "set (n1 @ n2) = visited c - visited a" using n1 n2 ab bc by auto
  ultimately show ?thesis using ab bc unfolding extends_run_def by blast
qed

lemma extends_run_mark: "k \<notin> visited st \<Longrightarrow> extends_run st (mark k st)"
  unfolding extends_run_def mark_def by (auto intro: exI[of _ "[k]"])

lemma run_extends:
  "extends_run st (snd (getRolePermissions k m st))"
  "extends_run st (snd (inheritFrom ps m st acc))"
proof (induction k m st and ps m st acc rule: getRolePermissions_inheritFrom.induct)
  case (1 roleKey rolesMap st)
  show ?case
  proof (cases "roleKey \<in> visited st")
    case True
    then show ?thesis by (simp add: getRolePermissions_visited extends_run_refl)
  next
    case nv: False
    show ?thesis
    proof (cases "map_of rolesMap roleKey")
      case None
      then show ?thesis using nv extends_run_mark[OF nv]
        by (simp add: getRolePermissions_missing)
    next
      case (Some r)
      show ?thesis
      proof (cases "orEmpty (role_extends r)")
        case Nil
        then show ?thesis using nv Some extends_run_mark[OF nv]
          by (simp add: getRolePermissions_leaf)
      next
        case (Cons p ps)
        then have ext: "role_extends r = Some (p # ps)"
          by (auto simp: orEmpty_def split: option.splits)
        have "extends_run (mark roleKey st)
                (snd (inheritFrom (p # ps) rolesMap (mark roleKey st)
                       (orEmpty (role_permissions r))))"
          using 1[OF nv refl Some refl ext refl] .
        then have "extends_run st
                (snd (inheritFrom (p # ps) rolesMap (mark roleKey st)
                       (orEmpty (role_permissions r))))"
          using extends_run_trans[OF extends_run_mark[OF nv]] by blast
        then show ?thesis using nv Some Cons
          by (simp add: getRolePermissions_inner)
      qed
    qed
  qed
next
  case (2 rolesMap st permissions)
  show ?case by (simp add: extends_run_refl inheritFrom.simps)
next
  case (3 parentRoleKey rest rolesMap st permissions)
  obtain pp st1 where g: "getRolePermissions parentRoleKey rolesMap st = (pp, st1)"
    by (cases "getRolePermissions parentRoleKey rolesMap st")
  have a: "extends_run st st1" using 3(1) g by simp
  have b: "extends_run st1 (snd (inheritFrom rest rolesMap st1 (permissions @ pp)))"
    using 3(2)[OF g[symmetric]] .
  show ?case using extends_run_trans[OF a b] g by (simp add: inheritFrom.simps)
qed

lemma key_marked: "k \<in> visited (snd (getRolePermissions k m st))"
proof (cases "k \<in> visited st")
  case True
  then show ?thesis by (simp add: getRolePermissions_visited)
next
  case nv: False
  have mk: "k \<in> visited (mark k st)" by (simp add: mark_def)
  show ?thesis
  proof (cases "map_of m k")
    case None
    then show ?thesis using nv mk by (simp add: getRolePermissions_missing)
  next
    case (Some r)
    show ?thesis
    proof (cases "orEmpty (role_extends r) = []")
      case True
      then show ?thesis using nv Some mk by (simp add: getRolePermissions_leaf)
    next
      case False
      have "extends_run (mark k st)
              (snd (inheritFrom (orEmpty (role_extends r)) m (mark k st)
                     (orEmpty (role_permissions r))))"
        by (rule run_extends(2))
      then have "visited (mark k st) \<subseteq>
          visited (snd (inheritFrom (orEmpty (role_extends r)) m (mark k st)
                     (orEmpty (role_permissions r))))"
        by (simp add: extends_run_def)
      then show ?thesis using nv Some False mk
        by (auto simp add: getRolePermissions_inner)
    qed
  qed
qed

subsection \<open>Parents that are all one key\<close>

lemma inheritFrom_pruned: "set ps \<subseteq> visited st \<Longrightarrow> inheritFrom ps m st acc = (acc, st)"
  by (induction ps) (auto simp: getRolePermissions_visited inheritFrom.simps)

lemma inheritFrom_single:
  assumes "set ps = {b}"
  shows "inheritFrom ps m st acc =
           (acc @ fst (getRolePermissions b m st), snd (getRolePermissions b m st))"
proof -
  obtain rest where ps: "ps = b # rest" and rest: "set rest \<subseteq> {b}"
    using assms by (cases ps) auto
  have "set rest \<subseteq> visited (snd (getRolePermissions b m st))"
    using rest key_marked[of b m st] by auto
  then show ?thesis
    by (cases "getRolePermissions b m st") (simp add: ps inheritFrom_pruned inheritFrom.simps)
qed

lemma getRolePermissions_one_parent:
  assumes "k \<notin> visited st" "map_of m k = Some r" "set (orEmpty (role_extends r)) = {b}"
  shows "getRolePermissions k m st =
           (newSet (orEmpty (role_permissions r) @ fst (getRolePermissions b m (mark k st))),
            snd (getRolePermissions b m (mark k st)))"
proof -
  have ne: "orEmpty (role_extends r) \<noteq> []"
  proof
    assume "orEmpty (role_extends r) = []"
    then have "set (orEmpty (role_extends r)) = {}" by simp
    then show False using assms(3) by simp
  qed
  have "getRolePermissions k m st =
     (newSet (fst (inheritFrom (orEmpty (role_extends r)) m (mark k st)
                     (orEmpty (role_permissions r)))),
      snd (inheritFrom (orEmpty (role_extends r)) m (mark k st) (orEmpty (role_permissions r))))"
    by (rule getRolePermissions_inner[OF assms(1,2) ne])
  then show ?thesis
    by (simp only: inheritFrom_single[OF assms(3)] fst_conv snd_conv)
qed

lemma chain_keys_distinct:
  assumes a: "map_of rolesMap a = Some ra" and b: "map_of rolesMap b = Some rb"
    and c: "map_of rolesMap c = Some rc"
    and ab: "set (orEmpty (role_extends ra)) = {b}"
    and bc: "set (orEmpty (role_extends rb)) = {c}"
    and c0: "orEmpty (role_extends rc) = []"
  shows "a \<noteq> b" "b \<noteq> c" "a \<noteq> c"
proof -
  show bc_ne: "b \<noteq> c"
  proof
    assume "b = c"
    then have "rb = rc" using b c by simp
    then show False using bc c0 by simp
  qed
  show "a \<noteq> c"
  proof
    assume "a = c"
    then have "ra = rc" using a c by simp
    then show False using ab c0 by simp
  qed
  show "a \<noteq> b"
  proof
    assume "a = b"
    then have "ra = rb" using a b by simp
    then have "{b} = {c}" using ab bc by simp
    then show False using bc_ne by simp
  qed
qed

section \<open>Claims about the role graph resolver\<close>

text \<open>
  C1 (closure of a linear chain). Let \<open>a\<close>, \<open>b\<close>, \<open>c\<close> be keys of the role table
  with roles \<open>ra\<close>, \<open>rb\<close>, \<open>rc\<close>, where \<open>ra\<close> extends \<open>b\<close> and nothing else,
  \<open>rb\<close> extends \<open>c\<close> and nothing else, and \<open>rc\<close> extends nothing. Then
  \<^verbatim>\<open>getRolePermissions(a, table, new Set())\<close> returns a list without duplicates whose
  elements are exactly the direct permissions of the three roles.
\<close>

theorem closure_chain:
  assumes a: "map_of rolesMap a = Some ra" and b: "map_of rolesMap b = Some rb"
    and c: "map_of rolesMap c = Some rc"
    and ab: "set (orEmpty (role_extends ra)) = {b}"
    and bc: "set (orEmpty (role_extends rb)) = {c}"
    and c0: "orEmpty (role_extends rc) = []"
  shows "set (fst (getRolePermissions a rolesMap fresh)) =
           set (orEmpty (role_permissions ra)) \<union> set (orEmpty (role_permissions rb))
             \<union> set (orEmpty (role_permissions rc))
         \<and> distinct (fst (getRolePermissions a rolesMap fresh))"
proof -
  note ne = chain_keys_distinct[OF a b c ab bc c0]
  have va: "a \<notin> visited fresh" by (simp add: fresh_def)
  have vb: "b \<notin> visited (mark a fresh)" using ne(1) by (simp add: fresh_def mark_def)
  have vc: "c \<notin> visited (mark b (mark a fresh))"
    using ne(2,3) by (simp add: fresh_def mark_def)
  have step_c: "fst (getRolePermissions c rolesMap (mark b (mark a fresh))) =
      newSet (orEmpty (role_permissions rc))"
    by (simp only: getRolePermissions_leaf[OF vc c c0] fst_conv)
  have step_b: "fst (getRolePermissions b rolesMap (mark a fresh)) =
      newSet (orEmpty (role_permissions rb) @ newSet (orEmpty (role_permissions rc)))"
    by (simp only: getRolePermissions_one_parent[OF vb b bc] step_c fst_conv)
  have step_a: "fst (getRolePermissions a rolesMap fresh) =
      newSet (orEmpty (role_permissions ra) @
        newSet (orEmpty (role_permissions rb) @ newSet (orEmpty (role_permissions rc))))"
    by (simp only: getRolePermissions_one_parent[OF va a ab] step_b fst_conv)
  show ?thesis unfolding step_a by (simp add: set_newSet distinct_newSet Un_assoc)
qed

theorem closure_chain_witness:
  "map_of chainRoles ''admin'' = Some adminRole \<and>
   map_of chainRoles ''editor'' = Some editorRole \<and>
   map_of chainRoles ''viewer'' = Some viewerRole \<and>
   set (orEmpty (role_extends adminRole)) = {''editor''} \<and>
   set (orEmpty (role_extends editorRole)) = {''viewer''} \<and>
   orEmpty (role_extends viewerRole) = [] \<and>
   set (fst (getRolePermissions ''admin'' chainRoles fresh)) =
     {''document:delete'', ''document:read'', ''document:write''} \<and>
   distinct (fst (getRolePermissions ''admin'' chainRoles fresh))"
proof -
  have a: "map_of chainRoles ''admin'' = Some adminRole" by (simp add: chainRoles_def)
  have b: "map_of chainRoles ''editor'' = Some editorRole" by (simp add: chainRoles_def)
  have c: "map_of chainRoles ''viewer'' = Some viewerRole" by (simp add: chainRoles_def)
  have ab: "set (orEmpty (role_extends adminRole)) = {''editor''}"
    by (simp add: adminRole_def orEmpty_def)
  have bc: "set (orEmpty (role_extends editorRole)) = {''viewer''}"
    by (simp add: editorRole_def orEmpty_def)
  have c0: "orEmpty (role_extends viewerRole) = []"
    by (simp add: viewerRole_def orEmpty_def)
  have perms: "set (orEmpty (role_permissions adminRole)) \<union>
      set (orEmpty (role_permissions editorRole)) \<union> set (orEmpty (role_permissions viewerRole)) =
      {''document:delete'', ''document:read'', ''document:write''}"
    by (simp add: adminRole_def editorRole_def viewerRole_def orEmpty_def insert_commute)
  show ?thesis
    using closure_chain[OF a b c ab bc c0] a b c ab bc c0 unfolding perms by blast
qed

text \<open>
  C2 (cycle safety). The resolver is a total function: the termination proof above covers
  every role table, cyclic or not, so every call returns. In one top-level call no key is
  looked up in the table twice, and the keys looked up are exactly the keys marked
  visited. For a direct cycle, \<open>rx\<close> extending exactly \<open>y\<close> and \<open>ry\<close> extending exactly
  \<open>x\<close>, the call for \<open>x\<close> returns exactly the direct permissions of the two roles.
\<close>

theorem closure_cycle_safe:
  "distinct (lookups (snd (getRolePermissions k rolesMap fresh))) \<and>
   set (lookups (snd (getRolePermissions k rolesMap fresh))) =
     visited (snd (getRolePermissions k rolesMap fresh)) \<and>
   (map_of rolesMap x = Some rx \<and> map_of rolesMap y = Some ry \<and>
    set (orEmpty (role_extends rx)) = {y} \<and> set (orEmpty (role_extends ry)) = {x} \<longrightarrow>
      set (fst (getRolePermissions x rolesMap fresh)) =
        set (orEmpty (role_permissions rx)) \<union> set (orEmpty (role_permissions ry)))"
proof (intro conjI impI)
  have "extends_run fresh (snd (getRolePermissions k rolesMap fresh))" by (rule run_extends(1))
  then obtain new where new: "lookups (snd (getRolePermissions k rolesMap fresh)) = new"
      "distinct new" "set new = visited (snd (getRolePermissions k rolesMap fresh))"
    unfolding extends_run_def fresh_def by auto
  show "distinct (lookups (snd (getRolePermissions k rolesMap fresh)))"
    using new(1,2) by simp
  show "set (lookups (snd (getRolePermissions k rolesMap fresh))) =
          visited (snd (getRolePermissions k rolesMap fresh))"
    using new(1,3) by simp
next
  assume h: "map_of rolesMap x = Some rx \<and> map_of rolesMap y = Some ry \<and>
    set (orEmpty (role_extends rx)) = {y} \<and> set (orEmpty (role_extends ry)) = {x}"
  then have x: "map_of rolesMap x = Some rx" and y: "map_of rolesMap y = Some ry"
    and xy: "set (orEmpty (role_extends rx)) = {y}"
    and yx: "set (orEmpty (role_extends ry)) = {x}"
    by blast+
  have vx: "x \<notin> visited fresh" by (simp add: fresh_def)
  have top: "fst (getRolePermissions x rolesMap fresh) =
      newSet (orEmpty (role_permissions rx) @ fst (getRolePermissions y rolesMap (mark x fresh)))"
    by (simp only: getRolePermissions_one_parent[OF vx x xy] fst_conv)
  show "set (fst (getRolePermissions x rolesMap fresh)) =
        set (orEmpty (role_permissions rx)) \<union> set (orEmpty (role_permissions ry))"
  proof (cases "y = x")
    case True
    then have same: "rx = ry" using x y by simp
    have "y \<in> visited (mark x fresh)" using True by (simp add: mark_def)
    then have "fst (getRolePermissions y rolesMap (mark x fresh)) = []"
      by (simp only: getRolePermissions_visited fst_conv)
    then show ?thesis unfolding top same by (simp add: set_newSet)
  next
    case False
    then have vy: "y \<notin> visited (mark x fresh)" by (simp add: mark_def fresh_def)
    have "x \<in> visited (mark y (mark x fresh))" by (simp add: mark_def)
    then have revisit: "fst (getRolePermissions x rolesMap (mark y (mark x fresh))) = []"
      by (simp only: getRolePermissions_visited fst_conv)
    have "fst (getRolePermissions y rolesMap (mark x fresh)) =
        newSet (orEmpty (role_permissions ry) @ [])"
      by (simp only: getRolePermissions_one_parent[OF vy y yx] revisit fst_conv)
    then show ?thesis unfolding top by (simp add: set_newSet)
  qed
qed

theorem closure_cycle_safe_witness:
  "map_of cycleRoles ''x'' = Some cycleX \<and> map_of cycleRoles ''y'' = Some cycleY \<and>
   set (orEmpty (role_extends cycleX)) = {''y''} \<and>
   set (orEmpty (role_extends cycleY)) = {''x''} \<and>
   set (fst (getRolePermissions ''x'' cycleRoles fresh)) = {''a:read'', ''b:read''} \<and>
   distinct (lookups (snd (getRolePermissions ''x'' cycleRoles fresh)))"
proof -
  have x: "map_of cycleRoles ''x'' = Some cycleX" by (simp add: cycleRoles_def)
  have y: "map_of cycleRoles ''y'' = Some cycleY" by (simp add: cycleRoles_def)
  have xy: "set (orEmpty (role_extends cycleX)) = {''y''}" by (simp add: cycleX_def orEmpty_def)
  have yx: "set (orEmpty (role_extends cycleY)) = {''x''}" by (simp add: cycleY_def orEmpty_def)
  have perms: "set (orEmpty (role_permissions cycleX)) \<union> set (orEmpty (role_permissions cycleY)) =
      {''a:read'', ''b:read''}"
    by (simp add: cycleX_def cycleY_def orEmpty_def insert_commute)
  show ?thesis
    using closure_cycle_safe[of "''x''" cycleRoles "''x''" cycleX "''y''" cycleY] x y xy yx
    unfolding perms by blast
qed

section \<open>Claims about the permission matcher\<close>

lemma arrayIncludes_iff: "arrayIncludes xs x \<longleftrightarrow> x \<in> set xs"
  by (induction xs) auto

lemma matchRoles_filter:
  "matchRoles roleKeys m rt req (matched, perms) =
     (matched @ filter (\<lambda>rk. grants (fst (getRolePermissions rk m fresh)) rt req) roleKeys,
      perms @ map (\<lambda>_. req) (filter (\<lambda>rk. grants (fst (getRolePermissions rk m fresh)) rt req) roleKeys))"
  by (induction roleKeys arbitrary: matched perms) (simp_all add: Let_def)

text \<open>
  C3 (permission matching). For a resource type and an action, the match on a list of
  granted permission strings succeeds exactly when the list holds the string
  \<open>type:action\<close>, the string \<open>type:*\<close> or the string \<open>*:*\<close>; membership is
  equality of strings, so no other granted string makes it succeed. In the loop of
  \<^verbatim>\<open>checkWithDetails\<close> the matched roles are the assigned role keys, in their order,
  whose closure holds one of these three strings.
\<close>

theorem permission_match_exact:
  "(grants granted resourceType (resourceType @ '':'' @ action) \<longleftrightarrow>
      resourceType @ '':'' @ action \<in> set granted \<or>
      resourceType @ '':*'' \<in> set granted \<or>
      ''*:*'' \<in> set granted) \<and>
   fst (matchRoles roleKeys rolesMap resourceType (resourceType @ '':'' @ action) ([], [])) =
     filter (\<lambda>roleKey.
        resourceType @ '':'' @ action \<in> set (fst (getRolePermissions roleKey rolesMap fresh)) \<or>
        resourceType @ '':*'' \<in> set (fst (getRolePermissions roleKey rolesMap fresh)) \<or>
        ''*:*'' \<in> set (fst (getRolePermissions roleKey rolesMap fresh))) roleKeys"
  by (simp add: matchRoles_filter grants_def arrayIncludes_iff)

theorem permission_match_exact_witness:
  "grants [''document:read''] ''document'' ''document:read'' \<and>
   grants [''image:*'', ''document:*''] ''document'' ''document:read'' \<and>
   grants [''*:*''] ''document'' ''document:read'' \<and>
   \<not> grants [''image:*'', ''*:read'', ''Document:read'', ''document:rea'', ''document:read:x'',
              ''doc*:*'', ''document:Read'', ''*'', ''document:**''] ''document'' ''document:read'' \<and>
   \<not> grants [] ''document'' ''document:read''"
  using permission_match_exact[of "[''document:read'']" "''document''" "''read''"]
    permission_match_exact[of "[''image:*'', ''document:*'']" "''document''" "''read''"]
    permission_match_exact[of "[''*:*'']" "''document''" "''read''"]
    permission_match_exact[of "[''image:*'', ''*:read'', ''Document:read'', ''document:rea'', ''document:read:x'',
              ''doc*:*'', ''document:Read'', ''*'', ''document:**'']" "''document''" "''read''"]
    permission_match_exact[of "[]" "''document''" "''read''"]
  by simp

section \<open>Claims about the decision engine\<close>

lemma ensureScope_calls: "set (snd (snd (ensureScope w cl))) \<subseteq> {ScopeFetch}"
  by (auto simp: ensureScope_def fetchAndSetScope_def Let_def split: option.splits prod.splits)

lemma checkWithDetails_try_no_assignments:
  assumes "roleAssignmentsList w (getUserKey (req_user request)) (req_tenant request) = Inr assignments"
    and "orEmpty assignments = []"
  shows "checkWithDetails_try w request =
    (Inr \<lparr>allowed = False,
          reason = Some (''User '' @ getUserKey (req_user request) @ '' has no role assignments''),
          debug = None\<rparr>,
     [ListRoleAssignments (getUserKey (req_user request)) (req_tenant request)])"
  using assms by (simp add: checkWithDetails_try_def Let_def)

lemma ensureScope_scoped: "hasScope (config cl) \<Longrightarrow> ensureScope w cl = (Inr (), cl, [])"
  by (simp add: ensureScope_def)

lemma hasScope_scopedConfig: "hasScope (config (newClient scopedConfig))"
  by (simp add: hasScope_def newClient_def scopedConfig_def unscopedConfig_def truthy_def)

lemma ensureScope_throwOnError:
  "cfg_throwOnError (config (fst (snd (ensureScope w cl)))) = cfg_throwOnError (config cl)"
  by (auto simp: ensureScope_def fetchAndSetScope_def scopeFetched_def updateScope_def Let_def
           split: option.splits sum.splits)

text \<open>
  C4 (no-assignment short circuit). When scope resolution succeeds and the role-assignment
  lookup for the user key and tenant of the request answers with no assignment (an empty
  array, or no \<^verbatim>\<open>data\<close> at all), \<^verbatim>\<open>checkWithDetails\<close> returns
  \<^verbatim>\<open>{allowed: false, reason: "User <userKey> has no role assignments"}\<close> with no
  \<^verbatim>\<open>debug\<close> field, and the lookup is the last call it makes: the roles are not
  listed, whatever the role service would have answered.
\<close>

theorem no_assignments_short_circuit:
  assumes scope: "ensureScope w cl = (Inr (), cl1, calls0)"
    and lookup: "roleAssignmentsList w (getUserKey (req_user request)) (req_tenant request) = Inr assignments"
    and empty: "orEmpty assignments = []"
  shows "checkWithDetails w cl request =
           (Inr \<lparr>allowed = False,
                 reason = Some (''User '' @ getUserKey (req_user request) @ '' has no role assignments''),
                 debug = None\<rparr>,
            cl1,
            calls0 @ [ListRoleAssignments (getUserKey (req_user request)) (req_tenant request)])
         \<and> (\<forall>perPage. ListRoles perPage \<notin> set (snd (snd (checkWithDetails w cl request))))"
proof -
  have res: "checkWithDetails w cl request =
           (Inr \<lparr>allowed = False,
                 reason = Some (''User '' @ getUserKey (req_user request) @ '' has no role assignments''),
                 debug = None\<rparr>,
            cl1,
            calls0 @ [ListRoleAssignments (getUserKey (req_user request)) (req_tenant request)])"
    by (simp add: checkWithDetails_def scope checkWithDetails_try_no_assignments[OF lookup empty])
  have "set calls0 \<subseteq> {ScopeFetch}" using ensureScope_calls[of w cl] scope by simp
  then have "ListRoles perPage \<notin> set calls0" for perPage by auto
  then show ?thesis unfolding res by simp
qed

theorem no_assignments_short_circuit_witness:
  "ensureScope liveWorld (newClient scopedConfig) = (Inr (), newClient scopedConfig, []) \<and>
   roleAssignmentsList liveWorld (getUserKey (req_user (readRequest ''u2'')))
      (req_tenant (readRequest ''u2'')) = Inr (Some []) \<and>
   checkWithDetails liveWorld (newClient scopedConfig) (readRequest ''u2'') =
     (Inr \<lparr>allowed = False, reason = Some ''User u2 has no role assignments'', debug = None\<rparr>,
      newClient scopedConfig, [ListRoleAssignments ''u2'' None])"
proof -
  have scope: "ensureScope liveWorld (newClient scopedConfig) = (Inr (), newClient scopedConfig, [])"
    by (rule ensureScope_scoped[OF hasScope_scopedConfig])
  have lookup: "roleAssignmentsList liveWorld (getUserKey (req_user (readRequest ''u2'')))
      (req_tenant (readRequest ''u2'')) = Inr (Some [])"
    by (simp add: liveWorld_def readRequest_def)
  have empty: "orEmpty (Some ([] :: role_assignment list)) = []" by (simp add: orEmpty_def)
  show ?thesis
    using no_assignments_short_circuit[OF scope lookup empty] scope lookup
    by (simp add: readRequest_def)
qed

text \<open>
  What the code does with an error: one thrown by scope resolution (step 1) leaves
  \<^verbatim>\<open>checkWithDetails\<close> as it is, since \<^verbatim>\<open>await this.ensureScope()\<close> stands
  before the \<^verbatim>\<open>try\<close>; one thrown inside the \<^verbatim>\<open>try\<close> block (steps 2-8) is
  thrown on unchanged when \<^verbatim>\<open>throwOnError\<close> is true, and otherwise becomes the
  decision \<^verbatim>\<open>{allowed: false, reason: "Error during permission check: <error>"}\<close>.
\<close>

lemma try_block_error_policy:
  "(fst (ensureScope w cl) = Inl e \<longrightarrow> fst (checkWithDetails w cl request) = Inl e) \<and>
   (fst (ensureScope w cl) = Inr () \<and> fst (checkWithDetails_try w request) = Inl e \<longrightarrow>
      fst (checkWithDetails w cl request) =
        (if cfg_throwOnError (config cl) then Inl e
         else Inr \<lparr>allowed = False,
                   reason = Some (''Error during permission check: '' @ errorToString e),
                   debug = None\<rparr>))"
proof (intro conjI impI)
  assume "fst (ensureScope w cl) = Inl e"
  then show "fst (checkWithDetails w cl request) = Inl e"
    by (cases "ensureScope w cl") (simp add: checkWithDetails_def)
next
  assume h: "fst (ensureScope w cl) = Inr () \<and> fst (checkWithDetails_try w request) = Inl e"
  obtain cl1 calls0 where s: "ensureScope w cl = (Inr (), cl1, calls0)"
    using h by (cases "ensureScope w cl") auto
  obtain calls where t: "checkWithDetails_try w request = (Inl e, calls)"
    using h by (cases "checkWithDetails_try w request") auto
  have "cfg_throwOnError (config cl1) = cfg_throwOnError (config cl)"
    using ensureScope_throwOnError[of w cl] s by simp
  then show "fst (checkWithDetails w cl request) =
        (if cfg_throwOnError (config cl) then Inl e
         else Inr \<lparr>allowed = False,
                   reason = Some (''Error during permission check: '' @ errorToString e),
                   debug = None\<rparr>)"
    by (simp add: checkWithDetails_def s t)
qed

lemma try_block_error_policy_example:
  "fst (ensureScope downWorld (newClient scopedConfig)) = Inr () \<and>
   fst (checkWithDetails_try downWorld (readRequest ''u1'')) =
     Inl (Thrown ''PermissioApiError: Network error - no response received'') \<and>
   fst (checkWithDetails downWorld (newClient scopedConfig) (readRequest ''u1'')) =
     Inr \<lparr>allowed = False,
          reason = Some ''Error during permission check: PermissioApiError: Network error - no response received'',
          debug = None\<rparr> \<and>
   fst (ensureScope downWorld (newClient unscopedConfig)) =
     Inl (NewError (''Permissio.io SDK: Failed to fetch API key scope. '' @
                  ''Either provide projectId and environmentId in config, '' @
                  ''or ensure the API key has valid scope. '' @
                  ''Error: AxiosError: Network Error'')) \<and>
   fst (checkWithDetails downWorld (newClient unscopedConfig) (readRequest ''u1'')) =
     Inl (NewError (''Permissio.io SDK: Failed to fetch API key scope. '' @
                  ''Either provide projectId and environmentId in config, '' @
                  ''or ensure the API key has valid scope. '' @
                  ''Error: AxiosError: Network Error''))"
proof -
  have s: "fst (ensureScope downWorld (newClient scopedConfig)) = Inr ()"
    by (simp add: ensureScope_scoped[OF hasScope_scopedConfig])
  have t: "fst (checkWithDetails_try downWorld (readRequest ''u1'')) =
     Inl (Thrown ''PermissioApiError: Network error - no response received'')"
    by (simp add: checkWithDetails_try_def downWorld_def readRequest_def Let_def)
  have q: "\<not> cfg_throwOnError (config (newClient scopedConfig))"
    by (simp add: newClient_def scopedConfig_def unscopedConfig_def)
  have u: "fst (ensureScope downWorld (newClient unscopedConfig)) =
     Inl (NewError (''Permissio.io SDK: Failed to fetch API key scope. '' @
                  ''Either provide projectId and environmentId in config, '' @
                  ''or ensure the API key has valid scope. '' @
                  ''Error: AxiosError: Network Error''))"
    by (simp add: ensureScope_def fetchAndSetScope_def scopeFetched_def
        newClient_def unscopedConfig_def downWorld_def hasScope_def truthy_def)
  show ?thesis
    using try_block_error_policy[of downWorld "newClient scopedConfig"
         "Thrown ''PermissioApiError: Network error - no response received''" "readRequest ''u1''"]
      try_block_error_policy[of downWorld "newClient unscopedConfig" _ "readRequest ''u1''"]
      s t q u
    by simp
qed

text \<open>
  C5 (error policy). The claim holds for steps 2-8 (lemma above) and the code breaks it
  at step 1. A client built from a token alone with \<^verbatim>\<open>throwOnError: false\<close>, the
  client of the documentation's "Will return false instead of throwing", throws from
  \<^verbatim>\<open>checkWithDetails\<close> when the scope endpoint cannot be reached: no decision is
  returned, and the error is the one \<^verbatim>\<open>fetchAndSetScope\<close> raised. The sibling
  \<^verbatim>\<open>bulkCheck\<close> catches the same error under the policy.
\<close>

theorem scope_error_escapes_error_policy:
  "cfg_throwOnError (config (newClient unscopedConfig)) = False \<and>
   cfg_projectId (config (newClient unscopedConfig)) = None \<and>
   cfg_environmentId (config (newClient unscopedConfig)) = None \<and>
   scopeResponse downWorld = Inl (Thrown ''AxiosError: Network Error'') \<and>
   fst (checkWithDetails downWorld (newClient unscopedConfig) (readRequest ''u1'')) =
     Inl (NewError (''Permissio.io SDK: Failed to fetch API key scope. '' @
                  ''Either provide projectId and environmentId in config, '' @
                  ''or ensure the API key has valid scope. '' @
                  ''Error: AxiosError: Network Error'')) \<and>
   fst (checkWithDetails downWorld (newClient unscopedConfig) (readRequest ''u1'')) \<noteq>
     Inr \<lparr>allowed = False,
          reason = Some (''Error during permission check: '' @
            errorToString (NewError (''Permissio.io SDK: Failed to fetch API key scope. '' @
                  ''Either provide projectId and environmentId in config, '' @
                  ''or ensure the API key has valid scope. '' @
                  ''Error: AxiosError: Network Error''))),
          debug = None\<rparr>"
  by (simp add: checkWithDetails_def ensureScope_def fetchAndSetScope_def scopeFetched_def
        newClient_def unscopedConfig_def downWorld_def hasScope_def truthy_def)

text \<open>
  C10 (the \<^verbatim>\<open>debug\<close> field). A decision returned after the roles were listed
  (the lookup answered with at least one assignment and the role listing answered)
  carries \<^verbatim>\<open>debug\<close> with \<^verbatim>\<open>evaluationTime: 0\<close>; every other decision that
  \<^verbatim>\<open>checkWithDetails\<close> returns, the no-assignment one and the converted error,
  carries no \<^verbatim>\<open>debug\<close> field.
\<close>

theorem decision_debug_shape:
  "fst (checkWithDetails w cl request) = Inr d \<longrightarrow>
     (if (\<exists>assignments. roleAssignmentsList w (getUserKey (req_user request)) (req_tenant request)
              = Inr assignments \<and> orEmpty assignments \<noteq> []) \<and>
         (\<exists>roles. rolesList w 100 = Inr roles)
      then \<exists>matched perms. debug d = Some \<lparr>matchedRoles = Some matched,
              matchedPermissions = Some perms, evaluationTime = Some 0\<rparr>
      else debug d = None)"
proof
  assume r: "fst (checkWithDetails w cl request) = Inr d"
  obtain cl1 calls0 where s: "ensureScope w cl = (Inr (), cl1, calls0)"
    using r by (cases "ensureScope w cl"; cases "fst (ensureScope w cl)")
       (auto simp: checkWithDetails_def)
  show "if (\<exists>assignments. roleAssignmentsList w (getUserKey (req_user request)) (req_tenant request)
              = Inr assignments \<and> orEmpty assignments \<noteq> []) \<and>
         (\<exists>roles. rolesList w 100 = Inr roles)
      then \<exists>matched perms. debug d = Some \<lparr>matchedRoles = Some matched,
              matchedPermissions = Some perms, evaluationTime = Some 0\<rparr>
      else debug d = None"
  proof (cases "roleAssignmentsList w (getUserKey (req_user request)) (req_tenant request)")
    case (Inl e)
    then have "fst (checkWithDetails_try w request) = Inl e"
      by (simp add: checkWithDetails_try_def Let_def)
    then show ?thesis using r s Inl
      by (cases "checkWithDetails_try w request") (auto simp: checkWithDetails_def split: if_splits)
  next
    case (Inr assignments)
    note asg = this
    show ?thesis
    proof (cases "orEmpty assignments = []")
      case True
      then show ?thesis
        using r s asg checkWithDetails_try_no_assignments[OF asg True]
        by (auto simp: checkWithDetails_def)
    next
      case False
      then have some: "assignments \<noteq> None" by (cases assignments) (auto simp: orEmpty_def)
      show ?thesis
      proof (cases "rolesList w 100")
        case (Inl e)
        then have "fst (checkWithDetails_try w request) = Inl e"
          using asg False some by (simp add: checkWithDetails_try_def Let_def)
        then show ?thesis using r s Inl
          by (cases "checkWithDetails_try w request") (auto simp: checkWithDetails_def split: if_splits)
      next
        case (Inr roles)
        then have "\<exists>matched perms. debug d = Some \<lparr>matchedRoles = Some matched,
              matchedPermissions = Some perms, evaluationTime = Some 0\<rparr>"
          using r s asg False some
          by (auto simp: checkWithDetails_def checkWithDetails_try_def Let_def split: prod.splits)
        then show ?thesis using asg False Inr by simp
      qed
    qed
  qed
qed

lemma full_path_example:
  "fst (checkWithDetails liveWorld (newClient scopedConfig) (readRequest ''u1'')) =
     Inr \<lparr>allowed = True, reason = Some ''Granted by role(s): admin'',
          debug = Some \<lparr>matchedRoles = Some [''admin''],
                        matchedPermissions = Some [''document:read''],
                        evaluationTime = Some 0\<rparr>\<rparr>"
  by code_simp

theorem decision_debug_shape_witness:
  "fst (checkWithDetails liveWorld (newClient scopedConfig) (readRequest ''u1'')) =
     Inr \<lparr>allowed = True, reason = Some ''Granted by role(s): admin'',
          debug = Some \<lparr>matchedRoles = Some [''admin''],
                        matchedPermissions = Some [''document:read''],
                        evaluationTime = Some 0\<rparr>\<rparr> \<and>
   fst (checkWithDetails liveWorld (newClient scopedConfig) (readRequest ''u2'')) =
     Inr \<lparr>allowed = False, reason = Some ''User u2 has no role assignments'', debug = None\<rparr> \<and>
   fst (checkWithDetails downWorld (newClient scopedConfig) (readRequest ''u1'')) =
     Inr \<lparr>allowed = False,
          reason = Some ''Error during permission check: PermissioApiError: Network error - no response received'',
          debug = None\<rparr>"
proof -
  have scope: "ensureScope w (newClient scopedConfig) = (Inr (), newClient scopedConfig, [])" for w
    by (rule ensureScope_scoped[OF hasScope_scopedConfig])
  have quiet: "\<not> cfg_throwOnError (config (newClient scopedConfig))"
    by (simp add: newClient_def scopedConfig_def unscopedConfig_def)
  have t1: "checkWithDetails_try liveWorld (readRequest ''u2'') =
     (Inr \<lparr>allowed = False, reason = Some ''User u2 has no role assignments'', debug = None\<rparr>,
      [ListRoleAssignments ''u2'' None])"
    by (simp add: checkWithDetails_try_def liveWorld_def readRequest_def Let_def orEmpty_def)
  have t2: "checkWithDetails_try downWorld (readRequest ''u1'') =
     (Inl (Thrown ''PermissioApiError: Network error - no response received''),
      [ListRoleAssignments ''u1'' None])"
    by (simp add: checkWithDetails_try_def downWorld_def readRequest_def Let_def)
  have none: "fst (checkWithDetails liveWorld (newClient scopedConfig) (readRequest ''u2'')) =
     Inr \<lparr>allowed = False, reason = Some ''User u2 has no role assignments'', debug = None\<rparr>"
    by (simp add: checkWithDetails_def scope t1)
  have err: "fst (checkWithDetails downWorld (newClient scopedConfig) (readRequest ''u1'')) =
     Inr \<lparr>allowed = False,
          reason = Some ''Error during permission check: PermissioApiError: Network error - no response received'',
          debug = None\<rparr>"
    by (simp add: checkWithDetails_def scope t2 quiet)
  show ?thesis
    using decision_debug_shape[of liveWorld "newClient scopedConfig" "readRequest ''u1''"]
      decision_debug_shape[of liveWorld "newClient scopedConfig" "readRequest ''u2''"]
      decision_debug_shape[of downWorld "newClient scopedConfig" "readRequest ''u1''"]
      full_path_example none err
    by simp
qed

section \<open>Claims about the request arguments\<close>

lemma strSplit_first: "strSplit sep s = takeWhile (\<lambda>ch. ch \<noteq> sep) s # tl (strSplit sep s)"
  by (induction s) (auto split: list.splits)

lemma strSplit_no_sep: "sep \<notin> set s \<Longrightarrow> strSplit sep s = [s]"
  by (induction s) auto

lemma strSplit_at_sep: "sep \<notin> set t \<Longrightarrow> strSplit sep (t @ sep # rest) = t # strSplit sep rest"
  by (induction t) auto

lemma takeWhile_no_sep: "sep \<notin> set s \<Longrightarrow> takeWhile (\<lambda>ch. ch \<noteq> sep) s = s"
  by (induction s) auto

lemma strSplit_nonempty: "strSplit sep s \<noteq> []"
  by (subst strSplit_first) simp

lemma strSplit_head: "arrayAt (strSplit sep s) 0 = Some (takeWhile (\<lambda>ch. ch \<noteq> sep) s)"
  by (subst strSplit_first) simp

lemma extractResourceType_string:
  "extractResourceType (ResourceString s) = takeWhile (\<lambda>ch. ch \<noteq> CHR '':'') s"
proof (cases "CHR '':'' \<in> set s")
  case True
  then show ?thesis by (simp add: strSplit_head)
next
  case False
  then show ?thesis by (simp add: takeWhile_no_sep)
qed

lemma extractResourceInstanceKey_no_colon:
  "CHR '':'' \<notin> set s \<Longrightarrow> extractResourceInstanceKey (ResourceString s) = None"
  by (simp add: strSplit_no_sep)

lemma extractResourceInstanceKey_one_colon:
  "CHR '':'' \<notin> set t \<Longrightarrow> CHR '':'' \<notin> set k \<Longrightarrow>
   extractResourceInstanceKey (ResourceString (t @ '':'' @ k)) = Some k"
  by (simp add: strSplit_at_sep strSplit_no_sep)

lemma extractResourceInstanceKey_segment:
  "CHR '':'' \<notin> set t \<Longrightarrow>
   extractResourceInstanceKey (ResourceString (t @ '':'' @ rest)) =
     Some (takeWhile (\<lambda>ch. ch \<noteq> CHR '':'') rest)"
  by (simp add: strSplit_at_sep strSplit_head strSplit_nonempty Let_def)

text \<open>
  C6 (resource argument). The claim holds for a structured resource, for a bare string
  without a colon and for the type of any bare string (lemmas above). It fails for the
  instance key of a bare string with two colons or more: \<^verbatim>\<open>resource.split(":")[1]\<close>
  is the text between the first and the second colon, not all the text after the first.
  For \<^verbatim>\<open>"document:folder:42"\<close> the key is \<^verbatim>\<open>"folder"\<close>, although
  \<^verbatim>\<open>getResourceKey\<close> writes the resource of type \<^verbatim>\<open>document\<close> and key
  \<^verbatim>\<open>folder:42\<close> as this very string.
\<close>

theorem resource_key_cut_at_second_colon:
  "extractResourceType (ResourceString ''document:folder:42'') = ''document'' \<and>
   extractResourceInstanceKey (ResourceString ''document:folder:42'') = Some ''folder'' \<and>
   extractResourceInstanceKey (ResourceString ''document:folder:42'') \<noteq> Some ''folder:42'' \<and>
   getResourceKey (ResourceObject \<lparr>res_type = ''document'', res_key = Some ''folder:42'',
      res_tenant = None\<rparr>) = ''document:folder:42''"
  by simp

section \<open>Claims about scope resolution\<close>

text \<open>
  C7, as stated, fails for a partial scope: with only \<^verbatim>\<open>projectId\<close> configured,
  \<^verbatim>\<open>hasScope()\<close> is false, the scope is fetched, and a failed fetch makes
  \<^verbatim>\<open>ensureScope\<close> throw.
\<close>

theorem scope_failure_policy_counterexample:
  "cfg_projectId (config (newClient partialConfig)) = Some ''proj'' \<and>
   scopeResponse downWorld = Inl (Thrown ''AxiosError: Network Error'') \<and>
   fst (ensureScope downWorld (newClient partialConfig)) =
     Inl (NewError (''Permissio.io SDK: Failed to fetch API key scope. '' @
                  ''Either provide projectId and environmentId in config, '' @
                  ''or ensure the API key has valid scope. '' @
                  ''Error: AxiosError: Network Error''))"
  by (simp add: ensureScope_def fetchAndSetScope_def scopeFetched_def
        newClient_def partialConfig_def unscopedConfig_def downWorld_def hasScope_def truthy_def)

text \<open>
  C7, amended. When both \<^verbatim>\<open>projectId\<close> and \<^verbatim>\<open>environmentId\<close> are configured,
  \<^verbatim>\<open>ensureScope\<close> returns without fetching and without throwing and leaves the
  configuration as it is, and the \<^verbatim>\<open>catch\<close> of \<^verbatim>\<open>fetchAndSetScope\<close> swallows
  a failed fetch. When at least one of the two is missing, scope was not initialized and
  no resolution is in flight, a failed scope fetch makes \<^verbatim>\<open>ensureScope\<close> throw.
\<close>

theorem scope_failure_policy:
  "(hasScope (config cl) \<longrightarrow>
      ensureScope w cl = (Inr (), cl, []) \<and>
      scopeFetched (Inl e) cl = (Inr (), cl\<lparr>scopeInitialized := True\<rparr>)) \<and>
   (\<not> hasScope (config cl) \<and> \<not> scopeInitialized cl \<and> scopeInitPromise cl = None \<and>
    scopeResponse w = Inl e \<longrightarrow>
      ensureScope w cl =
        (Inl (NewError (''Permissio.io SDK: Failed to fetch API key scope. '' @
                  ''Either provide projectId and environmentId in config, '' @
                  ''or ensure the API key has valid scope. '' @
                  ''Error: '' @ errorToString e)), cl, [ScopeFetch]))"
  by (simp add: ensureScope_def fetchAndSetScope_def scopeFetched_def)

theorem scope_failure_policy_witness:
  "hasScope (config (newClient scopedConfig)) \<and>
   ensureScope downWorld (newClient scopedConfig) = (Inr (), newClient scopedConfig, []) \<and>
   \<not> hasScope (config (newClient partialConfig)) \<and>
   \<not> scopeInitialized (newClient partialConfig) \<and>
   scopeInitPromise (newClient partialConfig) = None \<and>
   scopeResponse downWorld = Inl (Thrown ''AxiosError: Network Error'') \<and>
   ensureScope downWorld (newClient partialConfig) =
        (Inl (NewError (''Permissio.io SDK: Failed to fetch API key scope. '' @
                  ''Either provide projectId and environmentId in config, '' @
                  ''or ensure the API key has valid scope. '' @
                  ''Error: AxiosError: Network Error'')), newClient partialConfig, [ScopeFetch])"
proof -
  have a: "hasScope (config (newClient scopedConfig))" by (rule hasScope_scopedConfig)
  have b: "\<not> hasScope (config (newClient partialConfig))"
    by (simp add: hasScope_def newClient_def partialConfig_def unscopedConfig_def truthy_def)
  have c: "\<not> scopeInitialized (newClient partialConfig)"
    "scopeInitPromise (newClient partialConfig) = None"
    by (simp_all add: newClient_def)
  have d: "scopeResponse downWorld = Inl (Thrown ''AxiosError: Network Error'')"
    by (simp add: downWorld_def)
  show ?thesis
    using scope_failure_policy[of "newClient scopedConfig" downWorld
            "Thrown ''AxiosError: Network Error''"]
      scope_failure_policy[of "newClient partialConfig" downWorld
            "Thrown ''AxiosError: Network Error''"] a b c d
    by simp
qed

text \<open>
  C8, as stated, fails for a field that is present and empty: \<^verbatim>\<open>updateScope\<close>
  tests \<^verbatim>\<open>!this.projectId\<close>, and the empty string is falsy. A \<^verbatim>\<open>projectId\<close>
  configured as \<^verbatim>\<open>""\<close> is replaced by the fetched value.
\<close>

theorem updateScope_keeps_configured_counterexample:
  "cfg_projectId emptyIdConfig = Some [] \<and>
   cfg_projectId (updateScope (Some ''p1'') (Some ''e1'') emptyIdConfig) = Some ''p1'' \<and>
   cfg_projectId (updateScope (Some ''p1'') (Some ''e1'') emptyIdConfig) \<noteq>
     cfg_projectId emptyIdConfig"
  by (simp add: emptyIdConfig_def unscopedConfig_def updateScope_def truthy_def)

text \<open>
  C8, amended (\<^verbatim>\<open>updateScope\<close> keeps what is configured). A \<^verbatim>\<open>projectId\<close> or
  \<^verbatim>\<open>environmentId\<close> that is set to a non-empty string is unchanged by
  \<^verbatim>\<open>updateScope\<close>; a field that changes was absent or empty and takes the fetched
  value; no other field of the configuration changes.
\<close>

theorem updateScope_keeps_configured:
  "(truthy (cfg_projectId cfg) \<longrightarrow>
      cfg_projectId (updateScope projectId environmentId cfg) = cfg_projectId cfg) \<and>
   (truthy (cfg_environmentId cfg) \<longrightarrow>
      cfg_environmentId (updateScope projectId environmentId cfg) = cfg_environmentId cfg) \<and>
   (cfg_projectId (updateScope projectId environmentId cfg) \<noteq> cfg_projectId cfg \<longrightarrow>
      \<not> truthy (cfg_projectId cfg) \<and>
      cfg_projectId (updateScope projectId environmentId cfg) = projectId) \<and>
   (cfg_environmentId (updateScope projectId environmentId cfg) \<noteq> cfg_environmentId cfg \<longrightarrow>
      \<not> truthy (cfg_environmentId cfg) \<and>
      cfg_environmentId (updateScope projectId environmentId cfg) = environmentId) \<and>
   updateScope projectId environmentId cfg =
     cfg\<lparr>cfg_projectId := cfg_projectId (updateScope projectId environmentId cfg),
         cfg_environmentId := cfg_environmentId (updateScope projectId environmentId cfg)\<rparr>"
  by (simp add: updateScope_def Let_def)

theorem updateScope_keeps_configured_witness:
  "truthy (cfg_projectId partialConfig) \<and>
   \<not> truthy (cfg_environmentId partialConfig) \<and>
   updateScope (Some ''p1'') (Some ''e1'') partialConfig =
     partialConfig\<lparr>cfg_environmentId := Some ''e1''\<rparr> \<and>
   truthy (cfg_environmentId scopedConfig) \<and>
   updateScope (Some ''p1'') (Some ''e1'') scopedConfig = scopedConfig"
proof -
  have a: "truthy (cfg_projectId partialConfig)" "\<not> truthy (cfg_environmentId partialConfig)"
    by (simp_all add: partialConfig_def unscopedConfig_def truthy_def)
  have b: "truthy (cfg_projectId scopedConfig)" "truthy (cfg_environmentId scopedConfig)"
    by (simp_all add: scopedConfig_def unscopedConfig_def truthy_def)
  have c: "cfg_environmentId (updateScope (Some ''p1'') (Some ''e1'') partialConfig) = Some ''e1''"
    by (simp add: updateScope_def partialConfig_def unscopedConfig_def truthy_def)
  have p1: "cfg_projectId (updateScope (Some ''p1'') (Some ''e1'') partialConfig) =
      cfg_projectId partialConfig"
    using updateScope_keeps_configured[of partialConfig "Some ''p1''" "Some ''e1''"] a(1)
    by blast
  have p2: "updateScope (Some ''p1'') (Some ''e1'') partialConfig =
     partialConfig\<lparr>cfg_projectId := cfg_projectId (updateScope (Some ''p1'') (Some ''e1'') partialConfig),
         cfg_environmentId := cfg_environmentId (updateScope (Some ''p1'') (Some ''e1'') partialConfig)\<rparr>"
    using updateScope_keeps_configured[of partialConfig "Some ''p1''" "Some ''e1''"]
    by blast
  have p: "updateScope (Some ''p1'') (Some ''e1'') partialConfig =
     partialConfig\<lparr>cfg_environmentId := Some ''e1''\<rparr>"
    by (subst p2, simp only: p1 c) simp
  have q1: "cfg_projectId (updateScope (Some ''p1'') (Some ''e1'') scopedConfig) =
      cfg_projectId scopedConfig"
    "cfg_environmentId (updateScope (Some ''p1'') (Some ''e1'') scopedConfig) =
      cfg_environmentId scopedConfig"
    using updateScope_keeps_configured[of scopedConfig "Some ''p1''" "Some ''e1''"] b
    by blast+
  have q2: "updateScope (Some ''p1'') (Some ''e1'') scopedConfig =
     scopedConfig\<lparr>cfg_projectId := cfg_projectId (updateScope (Some ''p1'') (Some ''e1'') scopedConfig),
         cfg_environmentId := cfg_environmentId (updateScope (Some ''p1'') (Some ''e1'') scopedConfig)\<rparr>"
    using updateScope_keeps_configured[of scopedConfig "Some ''p1''" "Some ''e1''"]
    by blast
  have q: "updateScope (Some ''p1'') (Some ''e1'') scopedConfig = scopedConfig"
    by (subst q2, simp only: q1) simp
  show ?thesis using a b p q by simp
qed

lemma scopeFetched_promise: "scopeInitPromise (snd (scopeFetched r cl)) = scopeInitPromise cl"
  by (simp add: scopeFetched_def split: sum.splits)

lemma single_flight_boot: "single_flight (boot cfg)"
  by (simp add: single_flight_def boot_def)

lemma single_flight_call: assumes "single_flight s" shows "single_flight (step (Call c) s)"
proof (cases "callers s c \<noteq> NotCalled")
  case True
  then show ?thesis using assms by simp
next
  case nc: False
  show ?thesis
  proof (cases "scopeInitialized (sdk s) \<or> hasScope (config (sdk s))")
    case True
    then show ?thesis using assms nc unfolding single_flight_def by auto
  next
    case ns: False
    show ?thesis
    proof (cases "scopeInitPromise (sdk s)")
      case (Some p)
      then show ?thesis using assms nc ns unfolding single_flight_def by auto
    next
      case None
      have noPending: "promises s q \<noteq> Some Pending" for q
        using assms None unfolding single_flight_def by auto
      have noOwner: "callers s c' \<noteq> Owner q" for c' q
        using assms None unfolding single_flight_def by auto
      show ?thesis using nc ns None noPending noOwner
        unfolding single_flight_def by (auto simp: Let_def)
    qed
  qed
qed

lemma single_flight_response:
  assumes "single_flight s" shows "single_flight (step (Response p r) s)"
proof (cases "promises s p = Some Pending")
  case False
  then show ?thesis using assms by simp
next
  case True
  have stored: "scopeInitPromise (sdk s) = Some p"
    using assms True unfolding single_flight_def by blast
  have only: "promises s q = Some Pending \<Longrightarrow> q = p" for q
    using assms stored unfolding single_flight_def by auto
  obtain outcome cl1 where f: "scopeFetched r (sdk s) = (outcome, cl1)"
    by (cases "scopeFetched r (sdk s)")
  have keep: "scopeInitPromise cl1 = scopeInitPromise (sdk s)"
    using scopeFetched_promise[of r "sdk s"] f by simp
  have notPending: "settle outcome \<noteq> Pending"
    by (simp add: settle_def split: sum.splits)
  have st: "step (Response p r) s = s\<lparr>sdk := cl1, promises := (promises s)(p \<mapsto> settle outcome)\<rparr>"
    using True f by simp
  show ?thesis unfolding st single_flight_def
    using assms keep notPending only unfolding single_flight_def by auto
qed

lemma single_flight_resume:
  assumes "single_flight s" shows "single_flight (step (Resume c) s)"
proof (cases "callers s c")
  case NotCalled
  then show ?thesis using assms by simp
next
  case (Owner p)
  have stored: "scopeInitPromise (sdk s) = Some p"
    using assms Owner unfolding single_flight_def by blast
  have unique: "callers s c' = Owner q \<Longrightarrow> c' = c" for c' q
    using assms Owner unfolding single_flight_def by blast
  have only: "promises s q = Some Pending \<Longrightarrow> q = p" for q
    using assms stored unfolding single_flight_def by auto
  show ?thesis
  proof (cases "promises s p")
    case None
    then show ?thesis using assms Owner by simp
  next
    case (Some pr)
    show ?thesis
    proof (cases pr)
      case Pending
      then show ?thesis using assms Owner Some by simp
    next
      case Fulfilled
      then have np: "promises s q \<noteq> Some Pending" for q using only[of q] Some by auto
      have st: "step (Resume c) s = s\<lparr>sdk := (sdk s)\<lparr>scopeInitPromise := None\<rparr>,
                 callers := (callers s)(c := Settled (Inr ()))\<rparr>"
        using Owner Some Fulfilled by simp
      show ?thesis unfolding st single_flight_def using np unique by auto
    next
      case (Rejected e)
      then have np: "promises s q \<noteq> Some Pending" for q using only[of q] Some by auto
      have st: "step (Resume c) s = s\<lparr>sdk := (sdk s)\<lparr>scopeInitPromise := None\<rparr>,
                 callers := (callers s)(c := Settled (Inl e))\<rparr>"
        using Owner Some Rejected by simp
      show ?thesis unfolding st single_flight_def using np unique by auto
    qed
  qed
next
  case (Sharing p)
  then show ?thesis using assms unfolding single_flight_def
    by (auto split: option.splits promise.splits)
next
  case (Settled r)
  then show ?thesis using assms by simp
qed

lemma single_flight_step: "single_flight s \<Longrightarrow> single_flight (step e s)"
  by (cases e) (simp_all only: single_flight_call single_flight_response single_flight_resume)

lemma single_flight_run: "single_flight s \<Longrightarrow> single_flight (fold step es s)"
  by (induction es arbitrary: s) (simp_all add: single_flight_step)

lemma scopeFetches_no_call: "\<not> isCall e \<Longrightarrow> scopeFetches (step e s) = scopeFetches s"
  by (cases e) (auto split: caller.splits option.splits promise.splits prod.splits)

lemma scopeFetches_run_no_call:
  "\<forall>e\<in>set es. \<not> isCall e \<Longrightarrow> scopeFetches (fold step es s) = scopeFetches s"
  by (induction es arbitrary: s) (simp_all add: scopeFetches_no_call)

lemma scopeFetched_initialized:
  "scopeInitialized cl \<Longrightarrow> scopeInitialized (snd (scopeFetched r cl))"
  by (simp add: scopeFetched_def split: sum.splits)

lemma initialized_step:
  assumes "scopeInitialized (sdk s)"
  shows "scopeInitialized (sdk (step e s)) \<and> scopeFetches (step e s) = scopeFetches s"
proof (cases e)
  case (Call c)
  then show ?thesis using assms by simp
next
  case (Response p r)
  obtain outcome cl1 where f: "scopeFetched r (sdk s) = (outcome, cl1)"
    by (cases "scopeFetched r (sdk s)")
  have "scopeInitialized cl1" using scopeFetched_initialized[OF assms, of r] f by simp
  then show ?thesis using Response assms f by simp
next
  case (Resume c)
  then show ?thesis using assms
    by (auto split: caller.splits option.splits promise.splits)
qed

lemma initialized_run:
  "scopeInitialized (sdk s) \<Longrightarrow>
   scopeInitialized (sdk (fold step es s)) \<and> scopeFetches (fold step es s) = scopeFetches s"
proof (induction es arbitrary: s)
  case Nil
  then show ?case by simp
next
  case (Cons e es)
  have a: "scopeInitialized (sdk (step e s))" and b: "scopeFetches (step e s) = scopeFetches s"
    using initialized_step[OF Cons.prems, of e] by blast+
  show ?case using Cons.IH[OF a] b by simp
qed

text \<open>
  The two models agree: when no promise is stored, the three events of one caller, run
  without another event in between and with the response the service gives, leave the
  outcome, the configuration, the flag and the number of fetches that \<open>ensureScope\<close>
  computes.
\<close>

lemma scopeFetched_quiescent:
  "fst (scopeFetched r (quiescent cl)) = fst (scopeFetched r cl) \<and>
   config (snd (scopeFetched r (quiescent cl))) = config (snd (scopeFetched r cl)) \<and>
   scopeInitialized (snd (scopeFetched r (quiescent cl))) = scopeInitialized (snd (scopeFetched r cl))"
  by (simp add: scopeFetched_def quiescent_def split: sum.splits)

lemma scopeFetched_stored:
  "scopeFetched r (cl\<lparr>scopeInitPromise := x\<rparr>) =
     (fst (scopeFetched r cl), (snd (scopeFetched r cl))\<lparr>scopeInitPromise := x\<rparr>)"
  by (simp add: scopeFetched_def split: sum.splits)

lemma uninterrupted_run_is_ensureScope:
  assumes idle: "scopeInitPromise (sdk s) = None" and new: "callers s c = NotCalled"
    and unused: "promises s (allocated s) = None"
  shows "callers (fold step [Call c, Response (allocated s) (scopeResponse w), Resume c] s) c =
           Settled (fst (ensureScope w (quiescent (sdk s)))) \<and>
         quiescent (sdk (fold step [Call c, Response (allocated s) (scopeResponse w), Resume c] s)) =
           fst (snd (ensureScope w (quiescent (sdk s)))) \<and>
         scopeInitPromise (sdk (fold step [Call c, Response (allocated s) (scopeResponse w), Resume c] s)) = None \<and>
         scopeFetches (fold step [Call c, Response (allocated s) (scopeResponse w), Resume c] s) =
           scopeFetches s + length (snd (snd (ensureScope w (quiescent (sdk s)))))"
proof (cases "scopeInitialized (sdk s) \<or> hasScope (config (sdk s))")
  case True
  then show ?thesis using idle new unused
    by (auto simp: ensureScope_def quiescent_def)
next
  case False
  obtain outcome cl1 where f: "scopeFetched (scopeResponse w) (sdk s) = (outcome, cl1)"
    by (cases "scopeFetched (scopeResponse w) (sdk s)")
  have p: "scopeInitPromise cl1 = None"
    using scopeFetched_promise[of "scopeResponse w" "sdk s"] f idle by simp
  obtain outcome' cl1' where f': "scopeFetched (scopeResponse w) (quiescent (sdk s)) = (outcome', cl1')"
    by (cases "scopeFetched (scopeResponse w) (quiescent (sdk s))")
  have same: "outcome' = outcome" "config cl1' = config cl1" "scopeInitialized cl1' = scopeInitialized cl1"
    using scopeFetched_quiescent[of "scopeResponse w" "sdk s"] f f' by simp_all
  have q: "scopeInitPromise cl1' = None"
    using scopeFetched_promise[of "scopeResponse w" "quiescent (sdk s)"] f'
    by (simp add: quiescent_def)
  have seq: "ensureScope w (quiescent (sdk s)) = (outcome, cl1'\<lparr>scopeInitPromise := None\<rparr>, [ScopeFetch])"
    using False f' same(1)
    by (simp add: ensureScope_def fetchAndSetScope_def quiescent_def)
  have s1: "step (Call c) s = s\<lparr>sdk := (sdk s)\<lparr>scopeInitPromise := Some (allocated s)\<rparr>,
               promises := (promises s)(allocated s \<mapsto> Pending),
               allocated := Suc (allocated s),
               scopeFetches := Suc (scopeFetches s),
               callers := (callers s)(c := Owner (allocated s))\<rparr>"
    using False idle new by (simp add: Let_def)
  have s2: "step (Response (allocated s) (scopeResponse w)) (step (Call c) s) =
      (step (Call c) s)\<lparr>sdk := cl1\<lparr>scopeInitPromise := Some (allocated s)\<rparr>,
         promises := (promises (step (Call c) s))(allocated s \<mapsto> settle outcome)\<rparr>"
    unfolding s1 by (simp add: scopeFetched_stored f)
  have s3: "step (Resume c) (step (Response (allocated s) (scopeResponse w)) (step (Call c) s)) =
      (step (Response (allocated s) (scopeResponse w)) (step (Call c) s))
        \<lparr>sdk := cl1\<lparr>scopeInitPromise := None\<rparr>,
         callers := (callers (step (Call c) s))(c := Settled outcome)\<rparr>"
    unfolding s2 unfolding s1 by (cases outcome) (simp_all add: settle_def)
  have run: "fold step [Call c, Response (allocated s) (scopeResponse w), Resume c] s =
      step (Resume c) (step (Response (allocated s) (scopeResponse w)) (step (Call c) s))"
    by simp
  have final: "quiescent (cl1'\<lparr>scopeInitPromise := None\<rparr>) = quiescent cl1"
    by (simp add: quiescent_def same)
  have lhs: "callers (step (Resume c) (step (Response (allocated s) (scopeResponse w)) (step (Call c) s))) c
        = Settled outcome"
    "quiescent (sdk (step (Resume c) (step (Response (allocated s) (scopeResponse w)) (step (Call c) s))))
        = quiescent cl1"
    "scopeInitPromise (sdk (step (Resume c) (step (Response (allocated s) (scopeResponse w)) (step (Call c) s))))
        = None"
    "scopeFetches (step (Resume c) (step (Response (allocated s) (scopeResponse w)) (step (Call c) s)))
        = Suc (scopeFetches s)"
    unfolding s3 unfolding s2 unfolding s1 by (simp_all add: quiescent_def)
  have qq: "quiescent (cl1'\<lparr>scopeInitPromise := None\<rparr>) = cl1'\<lparr>scopeInitPromise := None\<rparr>"
    by (simp add: quiescent_def)
  show ?thesis unfolding run lhs seq fst_conv snd_conv
    using final qq by simp
qed

text \<open>
  C9 (single flight). In every state reached from a new client by any sequence of events:
  a caller that enters \<^verbatim>\<open>ensureScope\<close> while a promise is pending only registers
  as waiting for that promise, and nothing else changes (no request is sent, no promise is
  created); at most one promise is pending. When scope is not configured and two callers
  enter before anything else happens, exactly one scope fetch has been sent, and this
  stays so however the response and the continuations follow, as long as no further call
  is made; once the fetch has succeeded it stays so for every later event, further
  calls included.
\<close>

theorem scope_single_flight:
  "(promises (fold step es (boot cfg)) p = Some Pending \<and>
    callers (fold step es (boot cfg)) c = NotCalled \<longrightarrow>
      step (Call c) (fold step es (boot cfg)) =
        (fold step es (boot cfg))\<lparr>callers := (callers (fold step es (boot cfg)))(c := Sharing p)\<rparr>) \<and>
   (promises (fold step es (boot cfg)) p = Some Pending \<and>
    promises (fold step es (boot cfg)) q = Some Pending \<longrightarrow> p = q) \<and>
   (\<not> hasScope cfg \<and> a \<noteq> b \<and> (\<forall>e\<in>set es'. \<not> isCall e) \<longrightarrow>
      scopeFetches (fold step es' (fold step [Call a, Call b] (boot cfg))) = 1) \<and>
   (\<not> hasScope cfg \<and> a \<noteq> b \<longrightarrow>
      scopeFetches (fold step es'' (fold step [Call a, Call b, Response 0 (Inr scope)] (boot cfg))) = 1)"
proof (intro conjI impI)
  have inv: "single_flight (fold step es (boot cfg))"
    by (rule single_flight_run[OF single_flight_boot])
  {
    assume h: "promises (fold step es (boot cfg)) p = Some Pending \<and>
      callers (fold step es (boot cfg)) c = NotCalled"
    then have "scopeInitPromise (sdk (fold step es (boot cfg))) = Some p"
      and "\<not> scopeInitialized (sdk (fold step es (boot cfg)))"
      and "\<not> hasScope (config (sdk (fold step es (boot cfg))))"
      using inv unfolding single_flight_def by blast+
    then show "step (Call c) (fold step es (boot cfg)) =
        (fold step es (boot cfg))\<lparr>callers := (callers (fold step es (boot cfg)))(c := Sharing p)\<rparr>"
      using h by simp
  }
  {
    assume "promises (fold step es (boot cfg)) p = Some Pending \<and>
      promises (fold step es (boot cfg)) q = Some Pending"
    then have "scopeInitPromise (sdk (fold step es (boot cfg))) = Some p"
      and "scopeInitPromise (sdk (fold step es (boot cfg))) = Some q"
      using inv unfolding single_flight_def by blast+
    then show "p = q" by simp
  }
  {
    assume h: "\<not> hasScope cfg \<and> a \<noteq> b \<and> (\<forall>e\<in>set es'. \<not> isCall e)"
    then have "scopeFetches (fold step [Call a, Call b] (boot cfg)) = 1"
      by (simp add: boot_def)
    moreover have "scopeFetches (fold step es' (fold step [Call a, Call b] (boot cfg))) =
        scopeFetches (fold step [Call a, Call b] (boot cfg))"
      using h by (intro scopeFetches_run_no_call) blast
    ultimately show "scopeFetches (fold step es' (fold step [Call a, Call b] (boot cfg))) = 1"
      by simp
  }
  {
    assume h: "\<not> hasScope cfg \<and> a \<noteq> b"
    then have one: "scopeFetches (fold step [Call a, Call b, Response 0 (Inr scope)] (boot cfg)) = 1"
      and ready: "scopeInitialized (sdk (fold step [Call a, Call b, Response 0 (Inr scope)] (boot cfg)))"
      by (simp_all add: boot_def scopeFetched_def)
    show "scopeFetches (fold step es'' (fold step [Call a, Call b, Response 0 (Inr scope)] (boot cfg))) = 1"
      using initialized_run[OF ready, of es''] one by simp
  }
qed

theorem scope_single_flight_witness:
  "promises (fold step [Call 0] (boot unscopedConfig)) 0 = Some Pending \<and>
   callers (fold step [Call 0] (boot unscopedConfig)) 1 = NotCalled \<and>
   callers (step (Call 1) (fold step [Call 0] (boot unscopedConfig))) 1 = Sharing 0 \<and>
   scopeFetches (step (Call 1) (fold step [Call 0] (boot unscopedConfig))) = 1 \<and>
   \<not> hasScope unscopedConfig \<and>
   scopeFetches (fold step [Response 0 (Inl (Thrown ''AxiosError: Network Error'')), Resume 1, Resume 0]
      (fold step [Call 0, Call 1] (boot unscopedConfig))) = 1 \<and>
   scopeFetches (fold step [Resume 0, Call 2, Resume 1, Call 3]
      (fold step [Call 0, Call 1, Response 0 (Inr grantedScope)] (boot unscopedConfig))) = 1"
proof -
  have c: "\<not> hasScope unscopedConfig"
    by (simp add: unscopedConfig_def hasScope_def truthy_def)
  have a: "promises (fold step [Call 0] (boot unscopedConfig)) 0 = Some Pending"
    using c by (simp add: boot_def)
  have b: "callers (fold step [Call 0] (boot unscopedConfig)) 1 = NotCalled"
    using c by (simp add: boot_def)
  have f: "scopeFetches (fold step [Call 0] (boot unscopedConfig)) = 1"
    using c by (simp add: boot_def)
  have d: "\<forall>e\<in>set [Response 0 (Inl (Thrown ''AxiosError: Network Error'')), Resume 1, Resume 0].
      \<not> isCall e" by simp
  have n: "(0::nat) \<noteq> 1" by simp
  note t = scope_single_flight[of "[Call 0]" unscopedConfig 0 1 0 0 1
               "[Response 0 (Inl (Thrown ''AxiosError: Network Error'')), Resume 1, Resume 0]"
               "[Resume 0, Call 2, Resume 1, Call 3]" grantedScope]
  have e: "step (Call 1) (fold step [Call 0] (boot unscopedConfig)) =
        (fold step [Call 0] (boot unscopedConfig))\<lparr>callers :=
           (callers (fold step [Call 0] (boot unscopedConfig)))(1 := Sharing 0)\<rparr>"
    using t a b by blast
  have g: "scopeFetches (fold step [Response 0 (Inl (Thrown ''AxiosError: Network Error'')), Resume 1, Resume 0]
      (fold step [Call 0, Call 1] (boot unscopedConfig))) = 1"
    using t c d n by blast
  have h: "scopeFetches (fold step [Resume 0, Call 2, Resume 1, Call 3]
      (fold step [Call 0, Call 1, Response 0 (Inr grantedScope)] (boot unscopedConfig))) = 1"
    using t c n by blast
  define s1 where "s1 = fold step [Call 0] (boot unscopedConfig)"
  have e': "step (Call 1) s1 = s1\<lparr>callers := (callers s1)(1 := Sharing 0)\<rparr>"
    using e unfolding s1_def .
  have "callers (step (Call 1) s1) 1 = Sharing 0"
    by (subst e') simp
  then have e1: "callers (step (Call 1) (fold step [Call 0] (boot unscopedConfig))) 1 = Sharing 0"
    unfolding s1_def .
  have "scopeFetches (step (Call 1) s1) = scopeFetches s1"
    by (subst e') simp
  then have e2: "scopeFetches (step (Call 1) (fold step [Call 0] (boot unscopedConfig))) = 1"
    unfolding s1_def by (simp only: f)
  show ?thesis using a b c e1 e2 g h by blast
qed

end
